theory Spec2Isabelle
  imports Main
begin

unbundle bit_operations_syntax

section \<open>Strings\<close>

text \<open>
  A Python \<open>str\<close> is modelled as a \<open>string\<close>, one \<open>char\<close> per code point; the
  model covers the code points below 256. \<open>isspace\<close> is Python's \<open>str.isspace\<close> on one
  character, which is also what the regular expression class \<open>\s\<close> matches on a
  \<open>str\<close> pattern and what \<open>str.strip()\<close> removes: the code points 9 to 13, 28 to 32,
  133 and 160.
\<close>

definition isspace :: "char \<Rightarrow> bool" where
  "isspace c = (c \<in> {CHR 0x09, CHR 0x0A, CHR 0x0B, CHR 0x0C, CHR 0x0D,
                      CHR 0x1C, CHR 0x1D, CHR 0x1E, CHR 0x1F, CHR 0x20,
                      CHR 0x85, CHR 0xA0})"

definition strip :: "string \<Rightarrow> string" where
  \<comment> \<open>\<open>s.strip()\<close>: leading and trailing whitespace removed.\<close>
  "strip s = rev (dropWhile isspace (rev (dropWhile isspace s)))"

section \<open>Validation of names\<close>

datatype what = Name | MemberName | GroupName

datatype error =
    InvalidName what string
  | EmptyAddress
  | InvalidAddress string
  | NoNames
  | NoIps
  | NoMemberRows

definition name_char :: "char \<Rightarrow> bool" where
  \<comment> \<open>The character class \<open>[^\s/]\<close>.\<close>
  "name_char c = (\<not> isspace c \<and> c \<noteq> CHR ''/'')"

definition NAME_PATTERN_match :: "string \<Rightarrow> bool" where
  \<comment> \<open>\<open>NAME_PATTERN.match(name)\<close> for the pattern \<open>^[^\s/]+$\<close>: the greedy class takes the
      longest prefix of name characters, which must not be empty, and \<open>$\<close> matches at the
      end of the string and also just before a line feed that ends the string. Giving
      characters back cannot help, since \<open>$\<close> does not match before a name character.\<close>
  "NAME_PATTERN_match name =
     (let body = takeWhile name_char name; rest = dropWhile name_char name
      in body \<noteq> [] \<and> (rest = [] \<or> rest = [CHR 0x0A]))"

definition validate_name :: "string \<Rightarrow> what \<Rightarrow> error + unit" where
  "validate_name name w =
     (if \<not> NAME_PATTERN_match name then Inl (InvalidName w name) else Inr ())"

definition validate_member_name :: "string \<Rightarrow> error + unit" where
  "validate_member_name name = validate_name name MemberName"

section \<open>Command generation\<close>

definition gen_address_cmd :: "string \<Rightarrow> string \<Rightarrow> string \<Rightarrow> string" where
  "gen_address_cmd platform name cidr =
     (if platform = ''Firewall''
      then ''set address '' @ name @ '' ip-netmask '' @ cidr
      else ''set shared address '' @ name @ '' ip-netmask '' @ cidr)"

fun gen_group_loop :: "string \<Rightarrow> string \<Rightarrow> string list \<Rightarrow> string list \<Rightarrow> error + string list" where
  \<comment> \<open>The \<open>for m in members\<close> loop of \<open>gen_group_cmd\<close>, with the list \<open>cmds\<close> built so far.\<close>
  "gen_group_loop prefix group_name [] cmds = Inr cmds"
| "gen_group_loop prefix group_name (m0 # members) cmds =
     (let m = strip m0 in
      if m \<noteq> [] then
        (case validate_member_name m of
           Inl e \<Rightarrow> Inl e
         | Inr _ \<Rightarrow>
             gen_group_loop prefix group_name members
               (cmds @ [prefix @ '' '' @ group_name @ '' static '' @ m]))
      else gen_group_loop prefix group_name members cmds)"

definition gen_group_cmd :: "string \<Rightarrow> string \<Rightarrow> string list \<Rightarrow> error + string list" where
  "gen_group_cmd platform group_name members =
     (let prefix = (if platform = ''Firewall'' then ''set address-group''
                    else ''set shared address-group'')
      in gen_group_loop prefix group_name members [])"

subsection \<open>The group generator as the specification words it\<close>

datatype platform = Firewall | Panorama

fun platform_name :: "platform \<Rightarrow> string" where
  "platform_name Firewall = ''Firewall''"
| "platform_name Panorama = ''Panorama''"

definition blank :: "string \<Rightarrow> bool" where
  "blank m = (strip m = [])"

definition bad_member :: "string \<Rightarrow> bool" where
  \<comment> \<open>The trimmed member contains whitespace or a slash.\<close>
  "bad_member m = (\<exists>c\<in>set (strip m). isspace c \<or> c = CHR ''/'')"

fun group_prefix :: "platform \<Rightarrow> string" where
  "group_prefix Firewall = ''set address-group''"
| "group_prefix Panorama = ''set shared address-group''"

definition group_line :: "platform \<Rightarrow> string \<Rightarrow> string \<Rightarrow> string" where
  "group_line P g m = group_prefix P @ '' '' @ g @ '' static '' @ strip m"

definition generateGroupCommands :: "platform \<Rightarrow> string \<Rightarrow> string list \<Rightarrow> error + string list" where
  "generateGroupCommands P g ms =
     (case find (\<lambda>m. \<not> blank m \<and> bad_member m) ms of
        Some m \<Rightarrow> Inl (InvalidName MemberName (strip m))
      | None \<Rightarrow> Inr (map (group_line P g) (filter (\<lambda>m. \<not> blank m) ms)))"

section \<open>Python strings and integers used by the address code\<close>

fun str_split :: "char \<Rightarrow> string \<Rightarrow> string list" where
  \<comment> \<open>\<open>s.split(sep)\<close> for a separator of one character.\<close>
  "str_split sep [] = [[]]"
| "str_split sep (c # cs) =
     (if c = sep then [] # str_split sep cs
      else (c # hd (str_split sep cs)) # tl (str_split sep cs))"

fun str_join :: "string \<Rightarrow> string list \<Rightarrow> string" where
  \<comment> \<open>\<open>sep.join(parts)\<close>.\<close>
  "str_join sep [] = []"
| "str_join sep [p] = p"
| "str_join sep (p # q # ps) = p @ sep @ str_join sep (q # ps)"

definition str_partition :: "char \<Rightarrow> string \<Rightarrow> string \<times> string \<times> string" where
  \<comment> \<open>\<open>s.partition(sep)\<close>: the text before the first separator, the separator, the rest;
      the whole string and two empty strings when there is no separator.\<close>
  "str_partition sep s =
     (let rest = dropWhile (\<lambda>c. c \<noteq> sep) s
      in if rest = [] then (s, [], [])
         else (takeWhile (\<lambda>c. c \<noteq> sep) s, [sep], tl rest))"

definition rstrip_newline :: "string \<Rightarrow> string" where
  \<comment> \<open>\<open>ln.rstrip("\n")\<close>.\<close>
  "rstrip_newline ln = rev (dropWhile (\<lambda>c. c = CHR 0x0A) (rev ln))"

definition digit_table :: "(char \<times> nat) list" where
  "digit_table =
     [(CHR ''0'', 0), (CHR ''1'', 1), (CHR ''2'', 2), (CHR ''3'', 3), (CHR ''4'', 4),
      (CHR ''5'', 5), (CHR ''6'', 6), (CHR ''7'', 7), (CHR ''8'', 8), (CHR ''9'', 9),
      (CHR ''a'', 10), (CHR ''b'', 11), (CHR ''c'', 12), (CHR ''d'', 13), (CHR ''e'', 14),
      (CHR ''f'', 15), (CHR ''A'', 10), (CHR ''B'', 11), (CHR ''C'', 12), (CHR ''D'', 13),
      (CHR ''E'', 14), (CHR ''F'', 15)]"

definition digit_value :: "char \<Rightarrow> nat" where
  "digit_value c = (case map_of digit_table c of Some v \<Rightarrow> v | None \<Rightarrow> 0)"

definition digit_char :: "nat \<Rightarrow> char" where
  "digit_char d = ''0123456789abcdef'' ! d"

definition isdigit :: "char \<Rightarrow> bool" where
  \<comment> \<open>An ASCII decimal digit.\<close>
  "isdigit c = (c \<in> set ''0123456789'')"

definition str_isdigit :: "string \<Rightarrow> bool" where
  \<comment> \<open>\<open>s.isascii() and s.isdigit()\<close>: not empty, ASCII decimal digits only.\<close>
  "str_isdigit s = (s \<noteq> [] \<and> list_all isdigit s)"

definition int_of_str :: "nat \<Rightarrow> string \<Rightarrow> nat" where
  \<comment> \<open>The value \<open>int(s, base)\<close> of a string of digits of that base.\<close>
  "int_of_str base s = foldl (\<lambda>n c. base * n + digit_value c) 0 s"

definition int_max_str_digits :: nat where
  \<comment> \<open>The interpreter's default limit on the length of a decimal string given to \<open>int\<close>.\<close>
  "int_max_str_digits = 4300"

fun str_nat :: "nat \<Rightarrow> string" where
  \<comment> \<open>\<open>str(n)\<close> for an integer that is not negative.\<close>
  "str_nat n = (if n < 10 then [digit_char n] else str_nat (n div 10) @ [digit_char (n mod 10)])"

fun hex :: "nat \<Rightarrow> string" where
  \<comment> \<open>\<open>'%x' % n\<close>.\<close>
  "hex n = (if n < 16 then [digit_char n] else hex (n div 16) @ [digit_char (n mod 16)])"

definition hex_padded :: "nat \<Rightarrow> nat \<Rightarrow> string" where
  \<comment> \<open>\<open>'%0wx' % n\<close>: zeros on the left up to the width \<open>w\<close>.\<close>
  "hex_padded w n = replicate (w - length (hex n)) (CHR ''0'') @ hex n"

fun bit_length :: "nat \<Rightarrow> nat" where
  \<comment> \<open>\<open>n.bit_length()\<close>.\<close>
  "bit_length n = (if n = 0 then 0 else Suc (bit_length (n div 2)))"

declare str_nat.simps [simp del] hex.simps [simp del] bit_length.simps [simp del]

section \<open>The standard library's \<open>ipaddress\<close> module\<close>

text \<open>
  \<open>normalize_ip_or_cidr\<close> calls \<open>ipaddress.ip_address\<close> and \<open>ipaddress.ip_network\<close>
  of the Python standard library. The definitions of this section follow
  \<open>Lib/ipaddress.py\<close> of CPython 3.11 for a string argument, function by function under
  the library's names. An address is the integer \<open>_ip\<close>, for IPv6 with the optional
  scope id. \<open>None\<close> stands for the \<open>AddressValueError\<close>, \<open>NetmaskValueError\<close> or
  \<open>ValueError\<close> that the library raises; each handler of the library that is modelled
  catches exactly the errors its \<open>try\<close> block can raise.
\<close>

datatype address = V4 nat | V6 nat "string option"

fun version :: "address \<Rightarrow> nat" where
  "version (V4 ip) = 4"
| "version (V6 ip scope_id) = 6"

definition ALL_ONES :: "nat \<Rightarrow> nat" where
  \<comment> \<open>\<open>_ALL_ONES\<close> of the class with that many address bits.\<close>
  "ALL_ONES bits = 2 ^ bits - 1"

definition parse_octet :: "string \<Rightarrow> nat option" where
  "parse_octet octet_str =
     (if octet_str = [] then None
      else if \<not> str_isdigit octet_str then None
      else if length octet_str > 3 then None
      else if octet_str \<noteq> ''0'' \<and> hd octet_str = CHR ''0'' then None
      else (let octet_int = int_of_str 10 octet_str
            in if octet_int > 255 then None else Some octet_int))"

definition from_bytes :: "nat list \<Rightarrow> nat" where
  \<comment> \<open>\<open>int.from_bytes(bs, 'big')\<close>.\<close>
  "from_bytes bs = foldl (\<lambda>n b. 256 * n + b) 0 bs"

definition v4_ip_int_from_string :: "string \<Rightarrow> nat option" where
  "v4_ip_int_from_string ip_str =
     (if ip_str = [] then None
      else (let octets = str_split (CHR ''.'') ip_str
            in if length octets \<noteq> 4 then None
               else map_option from_bytes (those (map parse_octet octets))))"

definition v4_string_from_ip_int :: "nat \<Rightarrow> string" where
  \<comment> \<open>\<open>ip_int.to_bytes(4, 'big')\<close> gives the four bytes of an integer below \<open>2 ^ 32\<close>.\<close>
  "v4_string_from_ip_int ip_int =
     str_join ''.'' (map str_nat
       [ip_int div 2 ^ 24 mod 256, ip_int div 2 ^ 16 mod 256, ip_int div 2 ^ 8 mod 256,
        ip_int mod 256])"

definition IPv4Address :: "string \<Rightarrow> nat option" where
  "IPv4Address addr_str =
     (if CHR ''/'' \<in> set addr_str then None else v4_ip_int_from_string addr_str)"

definition parse_hextet :: "string \<Rightarrow> nat option" where
  \<comment> \<open>\<open>int('', 16)\<close> raises \<open>ValueError\<close>.\<close>
  "parse_hextet hextet_str =
     (if \<not> set hextet_str \<subseteq> set ''0123456789ABCDEFabcdef'' then None
      else if length hextet_str > 4 then None
      else if hextet_str = [] then None
      else Some (int_of_str 16 hextet_str))"

fun skip_index_loop :: "string list \<Rightarrow> nat list \<Rightarrow> nat option \<Rightarrow> nat option option" where
  \<comment> \<open>The loop that looks for the one empty part of \<open>::\<close> between the end points; the
      outer \<open>None\<close> is the error for a second \<open>::\<close>.\<close>
  "skip_index_loop parts [] skip_index = Some skip_index"
| "skip_index_loop parts (i # is) skip_index =
     (if parts ! i = [] then
        (if skip_index \<noteq> None then None else skip_index_loop parts is (Some i))
      else skip_index_loop parts is skip_index)"

fun hextets_loop :: "string list \<Rightarrow> nat \<Rightarrow> nat option" where
  \<comment> \<open>\<open>ip_int <<= 16; ip_int |= cls._parse_hextet(part)\<close> for each part.\<close>
  "hextets_loop [] ip_int = Some ip_int"
| "hextets_loop (p # ps) ip_int =
     (case parse_hextet p of
        None \<Rightarrow> None
      | Some h \<Rightarrow> hextets_loop ps (push_bit 16 ip_int OR h))"

definition v6_parts :: "string list \<Rightarrow> string list option" where
  \<comment> \<open>An IPv4-style suffix in the last part is replaced by two hextets.\<close>
  "v6_parts parts =
     (if CHR ''.'' \<in> set (last parts) then
        (case IPv4Address (last parts) of
           None \<Rightarrow> None
         | Some ipv4_int \<Rightarrow>
             Some (butlast parts @ [hex (drop_bit 16 ipv4_int AND 0xFFFF), hex (ipv4_int AND 0xFFFF)]))
      else Some parts)"

definition v6_counts :: "string list \<Rightarrow> (nat \<times> nat \<times> nat) option" where
  \<comment> \<open>\<open>parts_hi\<close>, \<open>parts_lo\<close> and \<open>parts_skipped\<close>, or the error of a malformed address.\<close>
  "v6_counts parts =
     (case skip_index_loop parts [1 ..< length parts - 1] None of
        None \<Rightarrow> None
      | Some (Some skip_index) \<Rightarrow>
          (let parts_hi = skip_index;
               parts_lo = length parts - skip_index - 1
           in if hd parts = [] \<and> parts_hi - 1 \<noteq> 0 then None
              else let parts_hi = (if hd parts = [] then parts_hi - 1 else parts_hi)
              in if last parts = [] \<and> parts_lo - 1 \<noteq> 0 then None
                 else let parts_lo = (if last parts = [] then parts_lo - 1 else parts_lo)
                 in if 8 - (parts_hi + parts_lo) < 1 then None
                    else Some (parts_hi, parts_lo, 8 - (parts_hi + parts_lo)))
      | Some None \<Rightarrow>
          (if length parts \<noteq> 8 then None
           else if hd parts = [] then None
           else if last parts = [] then None
           else Some (length parts, 0, 0)))"

definition v6_ip_int_from_string :: "string \<Rightarrow> nat option" where
  "v6_ip_int_from_string ip_str =
     (if ip_str = [] then None
      else (let parts = str_split (CHR '':'') ip_str
            in if length parts < 3 then None
               else (case v6_parts parts of
                 None \<Rightarrow> None
               | Some parts \<Rightarrow>
                   if length parts > 9 then None
                   else (case v6_counts parts of
                     None \<Rightarrow> None
                   | Some (parts_hi, parts_lo, parts_skipped) \<Rightarrow>
                       (case hextets_loop (take parts_hi parts) 0 of
                          None \<Rightarrow> None
                        | Some ip_int \<Rightarrow>
                            hextets_loop (drop (length parts - parts_lo) parts)
                              (push_bit (16 * parts_skipped) ip_int))))))"

fun compress_loop :: "string list \<Rightarrow> nat \<Rightarrow> nat option \<times> nat \<times> nat option \<times> nat \<Rightarrow>
    nat option \<times> nat \<times> nat option \<times> nat" where
  \<comment> \<open>The search for the longest run of \<open>0\<close> hextets. The state is
      \<open>best_doublecolon_start\<close>, \<open>best_doublecolon_len\<close>, \<open>doublecolon_start\<close> and
      \<open>doublecolon_len\<close>; \<open>None\<close> is the start \<open>-1\<close> of the source.\<close>
  "compress_loop [] index st = st"
| "compress_loop (hextet # hextets) index (best_start, best_len, start, len) =
     (if hextet = ''0'' then
        (let len = len + 1;
             start = (if start = None then Some index else start)
         in if len > best_len then compress_loop hextets (index + 1) (start, len, start, len)
            else compress_loop hextets (index + 1) (best_start, best_len, start, len))
      else compress_loop hextets (index + 1) (best_start, best_len, None, 0))"

definition compress_hextets :: "string list \<Rightarrow> string list" where
  "compress_hextets hextets =
     (case compress_loop hextets 0 (None, 0, None, 0) of
        (best_doublecolon_start, best_doublecolon_len, _, _) \<Rightarrow>
          if best_doublecolon_len > 1 then
            (let best_start = the best_doublecolon_start;
                 best_end = best_start + best_doublecolon_len;
                 hextets1 = (if best_end = length hextets then hextets @ [[]] else hextets);
                 hextets2 = take best_start hextets1 @ [[]] @ drop best_end hextets1
             in if best_start = 0 then [] # hextets2 else hextets2)
          else hextets)"

definition v6_string_from_ip_int :: "nat \<Rightarrow> string" where
  \<comment> \<open>For an integer up to \<open>_ALL_ONES\<close>; the library raises above it.\<close>
  "v6_string_from_ip_int ip_int =
     (let hex_str = hex_padded 32 ip_int;
          hextets = map (\<lambda>x. hex (int_of_str 16 (take 4 (drop x hex_str))))
                      [0, 4, 8, 12, 16, 20, 24, 28]
      in str_join '':'' (compress_hextets hextets))"

definition split_scope_id :: "string \<Rightarrow> (string \<times> string option) option" where
  "split_scope_id ip_str =
     (case str_partition (CHR ''%'') ip_str of
        (addr, sep, scope_id) \<Rightarrow>
          if sep = [] then Some (addr, None)
          else if scope_id = [] \<or> CHR ''%'' \<in> set scope_id then None
          else Some (addr, Some scope_id))"

definition IPv6Address :: "string \<Rightarrow> (nat \<times> string option) option" where
  "IPv6Address addr_str =
     (if CHR ''/'' \<in> set addr_str then None
      else (case split_scope_id addr_str of
        None \<Rightarrow> None
      | Some (addr_str, scope_id) \<Rightarrow>
          map_option (\<lambda>ip. (ip, scope_id)) (v6_ip_int_from_string addr_str)))"

definition ip_address :: "string \<Rightarrow> address option" where
  "ip_address s =
     (case IPv4Address s of
        Some ip \<Rightarrow> Some (V4 ip)
      | None \<Rightarrow>
          (case IPv6Address s of
             Some (ip, scope_id) \<Rightarrow> Some (V6 ip scope_id)
           | None \<Rightarrow> None))"

fun str_address :: "address \<Rightarrow> string" where
  \<comment> \<open>\<open>str(ip)\<close>.\<close>
  "str_address (V4 ip) = v4_string_from_ip_int ip"
| "str_address (V6 ip scope_id) =
     (case scope_id of
        None \<Rightarrow> v6_string_from_ip_int ip
      | Some s \<Rightarrow>
          if s \<noteq> [] then v6_string_from_ip_int ip @ ''%'' @ s else v6_string_from_ip_int ip)"

definition ip_int_from_prefix :: "nat \<Rightarrow> nat \<Rightarrow> nat" where
  "ip_int_from_prefix bits prefixlen = ALL_ONES bits XOR drop_bit prefixlen (ALL_ONES bits)"

definition count_righthand_zero_bits :: "nat \<Rightarrow> nat \<Rightarrow> nat" where
  \<comment> \<open>\<open>min(bits, (~number & (number - 1)).bit_length())\<close>, on Python's integers.\<close>
  "count_righthand_zero_bits number bits =
     (if number = 0 then bits
      else min bits (bit_length (nat (NOT (int number) AND (int number - 1)))))"

definition prefix_from_ip_int :: "nat \<Rightarrow> nat \<Rightarrow> nat option" where
  "prefix_from_ip_int bits ip_int =
     (let trailing_zeroes = count_righthand_zero_bits ip_int bits;
          prefixlen = bits - trailing_zeroes;
          leading_ones = drop_bit trailing_zeroes ip_int;
          all_ones = push_bit prefixlen 1 - 1
      in if leading_ones \<noteq> all_ones then None else Some prefixlen)"

definition prefix_from_prefix_string :: "nat \<Rightarrow> string \<Rightarrow> nat option" where
  \<comment> \<open>\<open>int(prefixlen_str)\<close> raises \<open>ValueError\<close> above the interpreter's digit limit.\<close>
  "prefix_from_prefix_string bits prefixlen_str =
     (if \<not> str_isdigit prefixlen_str then None
      else if length prefixlen_str > int_max_str_digits then None
      else (let prefixlen = int_of_str 10 prefixlen_str
            in if \<not> prefixlen \<le> bits then None else Some prefixlen))"

definition prefix_from_ip_string :: "string \<Rightarrow> nat option" where
  \<comment> \<open>A dotted netmask, or else a dotted hostmask; IPv4 only.\<close>
  "prefix_from_ip_string ip_str =
     (case v4_ip_int_from_string ip_str of
        None \<Rightarrow> None
      | Some ip_int \<Rightarrow>
          (case prefix_from_ip_int 32 ip_int of
             Some prefixlen \<Rightarrow> Some prefixlen
           | None \<Rightarrow> prefix_from_ip_int 32 (ip_int XOR ALL_ONES 32)))"

definition v4_make_netmask :: "string option \<Rightarrow> (nat \<times> nat) option" where
  \<comment> \<open>The argument is the text after the slash, or \<open>None\<close> for the integer
      \<open>_max_prefixlen\<close> that \<open>_split_addr_prefix\<close> supplies when there is no slash.\<close>
  "v4_make_netmask arg =
     (case (case arg of
              None \<Rightarrow> Some 32
            | Some s \<Rightarrow>
                (case prefix_from_prefix_string 32 s of
                   Some prefixlen \<Rightarrow> Some prefixlen
                 | None \<Rightarrow> prefix_from_ip_string s)) of
        None \<Rightarrow> None
      | Some prefixlen \<Rightarrow> Some (ip_int_from_prefix 32 prefixlen, prefixlen))"

definition v6_make_netmask :: "string option \<Rightarrow> (nat \<times> nat) option" where
  "v6_make_netmask arg =
     (case (case arg of
              None \<Rightarrow> Some 128
            | Some s \<Rightarrow> prefix_from_prefix_string 128 s) of
        None \<Rightarrow> None
      | Some prefixlen \<Rightarrow> Some (ip_int_from_prefix 128 prefixlen, prefixlen))"

definition split_addr_prefix :: "string \<Rightarrow> (string \<times> string option) option" where
  \<comment> \<open>\<open>_split_optional_netmask\<close> and \<open>_split_addr_prefix\<close>: more than one slash is an
      error.\<close>
  "split_addr_prefix address =
     (case str_split (CHR ''/'') address of
        [addr] \<Rightarrow> Some (addr, None)
      | [addr, m] \<Rightarrow> Some (addr, Some m)
      | _ \<Rightarrow> None)"

record network =
  network_address :: address
  prefixlen :: nat

definition IPv4Network :: "string \<Rightarrow> network option" where
  \<comment> \<open>\<open>IPv4Network(address, strict=False)\<close>.\<close>
  "IPv4Network address =
     (case split_addr_prefix address of
        None \<Rightarrow> None
      | Some (addr, m) \<Rightarrow>
          (case IPv4Address addr of
             None \<Rightarrow> None
           | Some packed \<Rightarrow>
               (case v4_make_netmask m of
                  None \<Rightarrow> None
                | Some (netmask, plen) \<Rightarrow>
                    Some \<lparr>network_address =
                            (if packed AND netmask \<noteq> packed then V4 (packed AND netmask)
                             else V4 packed),
                          prefixlen = plen\<rparr>)))"

definition IPv6Network :: "string \<Rightarrow> network option" where
  \<comment> \<open>\<open>IPv6Network(address, strict=False)\<close>; the address built from the masked integer
      has no scope id.\<close>
  "IPv6Network address =
     (case split_addr_prefix address of
        None \<Rightarrow> None
      | Some (addr, m) \<Rightarrow>
          (case IPv6Address addr of
             None \<Rightarrow> None
           | Some (packed, scope_id) \<Rightarrow>
               (case v6_make_netmask m of
                  None \<Rightarrow> None
                | Some (netmask, plen) \<Rightarrow>
                    Some \<lparr>network_address =
                            (if packed AND netmask \<noteq> packed then V6 (packed AND netmask) None
                             else V6 packed scope_id),
                          prefixlen = plen\<rparr>)))"

definition ip_network :: "string \<Rightarrow> network option" where
  \<comment> \<open>\<open>ip_network(address, strict=False)\<close>.\<close>
  "ip_network address =
     (case IPv4Network address of
        Some net \<Rightarrow> Some net
      | None \<Rightarrow> IPv6Network address)"

section \<open>Normalisation of addresses\<close>

definition normalize_ip_or_cidr :: "string \<Rightarrow> error + string" where
  "normalize_ip_or_cidr value =
     (let v = strip value in
      if v = [] then Inl EmptyAddress
      else (case (if CHR ''/'' \<in> set v then
                    (case ip_network v of
                       None \<Rightarrow> None
                     | Some net \<Rightarrow>
                         Some (str_address (network_address net) @ ''/'' @ str_nat (prefixlen net)))
                  else
                    (case ip_address v of
                       None \<Rightarrow> None
                     | Some ip \<Rightarrow>
                         (let default = (if version ip = 4 then 32 else 128)
                          in Some (str_address ip @ ''/'' @ str_nat default)))) of
              None \<Rightarrow> Inl (InvalidAddress value)
            | Some r \<Rightarrow> Inr r))"

section \<open>Reading the batch files\<close>

text \<open>
  A file chosen in the dialog is modelled by its base name and by what the reader of its
  kind sees: for a path ending in \<open>.csv\<close> the rows that \<open>csv.reader\<close> yields (an empty
  list for a blank line), for any other path the lines that \<open>readlines\<close> yields.
\<close>

datatype file_content = CsvFile "string list list" | TextFile "string list"

record chosen_file =
  basename :: string
  content :: file_content

definition read_lines_plaintext :: "string list \<Rightarrow> string list" where
  "read_lines_plaintext lines = map rstrip_newline lines"

definition read_csv_rows :: "string list list \<Rightarrow> string list list" where
  "read_csv_rows rows = map (map strip) rows"

fun names_csv_loop :: "string list list \<Rightarrow> string list \<Rightarrow> error + string list" where
  "names_csv_loop [] names = Inr names"
| "names_csv_loop (row # rows) names =
     (case row of
        [] \<Rightarrow> names_csv_loop rows names
      | c # _ \<Rightarrow>
          (let name = strip c in
           if name \<noteq> [] then
             (case validate_name name Name of
                Inl e \<Rightarrow> Inl e
              | Inr _ \<Rightarrow> names_csv_loop rows (names @ [name]))
           else names_csv_loop rows names))"

fun names_txt_loop :: "string list \<Rightarrow> string list \<Rightarrow> error + string list" where
  "names_txt_loop [] names = Inr names"
| "names_txt_loop (ln # lns) names =
     (let name = strip ln in
      if name \<noteq> [] then
        (case validate_name name Name of
           Inl e \<Rightarrow> Inl e
         | Inr _ \<Rightarrow> names_txt_loop lns (names @ [name]))
      else names_txt_loop lns names)"

definition read_names_from_file :: "file_content \<Rightarrow> error + string list" where
  "read_names_from_file f =
     (case (case f of
              CsvFile rows \<Rightarrow> names_csv_loop (read_csv_rows rows) []
            | TextFile lines \<Rightarrow> names_txt_loop (read_lines_plaintext lines) []) of
        Inl e \<Rightarrow> Inl e
      | Inr names \<Rightarrow> if names = [] then Inl NoNames else Inr names)"

fun ips_csv_loop :: "string list list \<Rightarrow> string list \<Rightarrow> error + string list" where
  "ips_csv_loop [] ips = Inr ips"
| "ips_csv_loop (row # rows) ips =
     (case row of
        [] \<Rightarrow> ips_csv_loop rows ips
      | c # _ \<Rightarrow>
          (let raw = strip c in
           if raw \<noteq> [] then
             (case normalize_ip_or_cidr raw of
                Inl e \<Rightarrow> Inl e
              | Inr ip \<Rightarrow> ips_csv_loop rows (ips @ [ip]))
           else ips_csv_loop rows ips))"

fun ips_txt_loop :: "string list \<Rightarrow> string list \<Rightarrow> error + string list" where
  "ips_txt_loop [] ips = Inr ips"
| "ips_txt_loop (ln # lns) ips =
     (let raw = strip ln in
      if raw \<noteq> [] then
        (case normalize_ip_or_cidr raw of
           Inl e \<Rightarrow> Inl e
         | Inr ip \<Rightarrow> ips_txt_loop lns (ips @ [ip]))
      else ips_txt_loop lns ips)"

definition read_ips_from_file :: "file_content \<Rightarrow> error + string list" where
  "read_ips_from_file f =
     (case (case f of
              CsvFile rows \<Rightarrow> ips_csv_loop (read_csv_rows rows) []
            | TextFile lines \<Rightarrow> ips_txt_loop (read_lines_plaintext lines) []) of
        Inl e \<Rightarrow> Inl e
      | Inr ips \<Rightarrow> if ips = [] then Inl NoIps else Inr ips)"

fun validate_members :: "string list \<Rightarrow> error + unit" where
  \<comment> \<open>\<open>for m in members: validate_member_name(m)\<close>.\<close>
  "validate_members [] = Inr ()"
| "validate_members (m # ms) =
     (case validate_member_name m of Inl e \<Rightarrow> Inl e | Inr _ \<Rightarrow> validate_members ms)"

definition stripped_members :: "string list \<Rightarrow> string list" where
  \<comment> \<open>\<open>[c.strip() for c in cells if c.strip()]\<close>.\<close>
  "stripped_members cells = map strip (filter (\<lambda>c. strip c \<noteq> []) cells)"

fun members_csv_loop :: "string list list \<Rightarrow> string list list \<Rightarrow> error + string list list" where
  "members_csv_loop [] lines_members = Inr lines_members"
| "members_csv_loop (row # rows) lines_members =
     (if row = [] then members_csv_loop rows lines_members
      else (let members = stripped_members (tl row);
                members = (if members = [] then [] else members)
            in case validate_members members of
                 Inl e \<Rightarrow> Inl e
               | Inr _ \<Rightarrow> members_csv_loop rows (lines_members @ [members])))"

fun members_txt_loop :: "string list \<Rightarrow> string list list \<Rightarrow> error + string list list" where
  "members_txt_loop [] lines_members = Inr lines_members"
| "members_txt_loop (ln # lns) lines_members =
     (if strip ln = [] then members_txt_loop lns (lines_members @ [[]])
      else (let members = stripped_members (str_split (CHR '','') ln)
            in case validate_members members of
                 Inl e \<Rightarrow> Inl e
               | Inr _ \<Rightarrow> members_txt_loop lns (lines_members @ [members])))"

definition read_members_from_file :: "file_content \<Rightarrow> error + string list list" where
  "read_members_from_file f =
     (case (case f of
              CsvFile rows \<Rightarrow> members_csv_loop (read_csv_rows rows) []
            | TextFile lines \<Rightarrow> members_txt_loop (read_lines_plaintext lines) []) of
        Inl e \<Rightarrow> Inl e
      | Inr lines_members \<Rightarrow>
          if lines_members = [] then Inl NoMemberRows else Inr lines_members)"

section \<open>The two-step imports\<close>

text \<open>
  The window state that the imports touch is the text of the output box and the status
  label. An import gets the platform selected in the window and the two files chosen in
  its dialogs (\<open>None\<close> for a dialog that was cancelled), and returns the error box it
  showed, if any, with the new state.
\<close>

datatype label =
    Prompt
  | AddressCommandsFromFiles string string
  | GroupCommandsFromFiles string string

record ui =
  output_text :: string
  result_label :: label

datatype dialog =
    NameFileError error
  | IpFileError error
  | GroupFileError error
  | MemberFileError error
  | CountMismatch nat nat
  | MemberMissing

definition show_output :: "string list \<Rightarrow> ui \<Rightarrow> ui" where
  \<comment> \<open>The box is emptied, then filled with the commands, one per line.\<close>
  "show_output cmds u =
     u\<lparr>output_text := (if cmds \<noteq> [] then str_join [CHR 0x0A] cmds @ [CHR 0x0A] else [])\<rparr>"

definition import_address_two_step ::
    "string \<Rightarrow> chosen_file option \<Rightarrow> chosen_file option \<Rightarrow> ui \<Rightarrow> dialog option \<times> ui" where
  "import_address_two_step platform path_names path_ips u =
     (case path_names of
        None \<Rightarrow> (None, u)
      | Some fn \<Rightarrow>
          (case read_names_from_file (content fn) of
             Inl e \<Rightarrow> (Some (NameFileError e), u)
           | Inr names \<Rightarrow>
               (case path_ips of
                  None \<Rightarrow> (None, u)
                | Some fi \<Rightarrow>
                    (case read_ips_from_file (content fi) of
                       Inl e \<Rightarrow> (Some (IpFileError e), u)
                     | Inr ips_raw \<Rightarrow>
                         if length names \<noteq> length ips_raw
                         then (Some (CountMismatch (length names) (length ips_raw)), u)
                         else (let cmds = map (\<lambda>(n, ip). gen_address_cmd platform n ip)
                                            (zip names ips_raw)
                               in (None, (show_output cmds u)
                                     \<lparr>result_label :=
                                        AddressCommandsFromFiles (basename fn) (basename fi)\<rparr>))))))"

fun group_cmds_loop ::
    "string \<Rightarrow> (string \<times> string list) list \<Rightarrow> string list \<Rightarrow> error + string list" where
  \<comment> \<open>\<open>for g, members in zip(groups, members_lines): cmds.extend(gen_group_cmd(...))\<close>.\<close>
  "group_cmds_loop platform [] cmds = Inr cmds"
| "group_cmds_loop platform ((g, members) # rest) cmds =
     (case gen_group_cmd platform g members of
        Inl e \<Rightarrow> Inl e
      | Inr new \<Rightarrow> group_cmds_loop platform rest (cmds @ new))"

definition import_group_two_step ::
    "string \<Rightarrow> chosen_file option \<Rightarrow> chosen_file option \<Rightarrow> ui \<Rightarrow> error + dialog option \<times> ui" where
  \<comment> \<open>\<open>Inl\<close> is an exception of \<open>gen_group_cmd\<close> that nothing here catches.\<close>
  "import_group_two_step platform path_groups path_members u =
     (case path_groups of
        None \<Rightarrow> Inr (None, u)
      | Some fg \<Rightarrow>
          (case read_names_from_file (content fg) of
             Inl e \<Rightarrow> Inr (Some (GroupFileError e), u)
           | Inr groups \<Rightarrow>
               (case path_members of
                  None \<Rightarrow> Inr (None, u)
                | Some fm \<Rightarrow>
                    (case read_members_from_file (content fm) of
                       Inl e \<Rightarrow> Inr (Some (MemberFileError e), u)
                     | Inr members_lines \<Rightarrow>
                         if length members_lines \<noteq> length groups
                         then Inr (Some (CountMismatch (length groups) (length members_lines)), u)
                         else if list_ex (\<lambda>members. length members = 0) members_lines
                         then Inr (Some MemberMissing, u)
                         else (case group_cmds_loop platform (zip groups members_lines) [] of
                                 Inl e \<Rightarrow> Inl e
                               | Inr cmds \<Rightarrow>
                                   Inr (None, (show_output cmds u)
                                     \<lparr>result_label :=
                                        GroupCommandsFromFiles (basename fg) (basename fm)\<rparr>))))))"

subsection \<open>The member rows that the reader is to return\<close>

definition members_of_line :: "string \<Rightarrow> string list" where
  \<comment> \<open>The members of a text line: its comma-separated entries, trimmed, blanks dropped.\<close>
  "members_of_line ln = stripped_members (str_split (CHR '','') (rstrip_newline ln))"

definition members_of_row :: "string list \<Rightarrow> string list" where
  \<comment> \<open>The members of a CSV row: its cells from the second on, trimmed, blanks dropped.\<close>
  "members_of_row row = stripped_members (tl row)"

fun member_rows :: "file_content \<Rightarrow> string list list" where
  "member_rows (TextFile lines) = map members_of_line lines"
| "member_rows (CsvFile rows) = map members_of_row (filter (\<lambda>row. row \<noteq> []) rows)"

section \<open>Notions for the claims about addresses\<close>

text \<open>
  The definitions of this section are not part of the program. They name what the
  statements and proofs about \<open>normalize_ip_or_cidr\<close> speak of: the digits of the
  printed text, the eight 16-bit groups of an IPv6 address and the number they denote,
  the run of zero groups that the printer found, the scope ids and addresses that the
  library can return, the largest prefix length of an address, and the address with the
  bits below a prefix length set to zero.
\<close>

definition lower_hex :: "char set" where
  "lower_hex = set ''0123456789abcdef''"

definition hextet_of :: "nat \<Rightarrow> nat \<Rightarrow> nat" where
  \<comment> \<open>The group at position \<open>i\<close> of a 128-bit address, the leftmost at 0.\<close>
  "hextet_of x i = x div 65536 ^ (7 - i) mod 65536"

definition horner :: "nat \<Rightarrow> nat list \<Rightarrow> nat" where
  \<comment> \<open>The number that groups denote when read after the number \<open>acc\<close>.\<close>
  "horner acc hs = foldl (\<lambda>a h. a * 65536 + h) acc hs"

definition zero_run :: "string list \<Rightarrow> nat \<Rightarrow> nat \<Rightarrow> bool" where
  \<comment> \<open>The \<open>n\<close> groups from position \<open>b\<close> on are all \<open>0\<close>.\<close>
  "zero_run H b n = (b + n \<le> length H \<and> (\<forall>i. b \<le> i \<and> i < b + n \<longrightarrow> H ! i = ''0''))"

definition best_ok :: "string list \<Rightarrow> nat option \<Rightarrow> nat \<Rightarrow> bool" where
  \<comment> \<open>The best run recorded by the search is a run of zero groups.\<close>
  "best_ok H bs bl = (0 < bl \<longrightarrow> (\<exists>b. bs = Some b \<and> zero_run H b bl))"

definition cur_ok :: "string list \<Rightarrow> nat \<Rightarrow> nat option \<Rightarrow> nat \<Rightarrow> bool" where
  \<comment> \<open>The run that the search is in ends just before position \<open>k\<close>.\<close>
  "cur_ok H k s l = (case s of None \<Rightarrow> l = 0 | Some st \<Rightarrow> 0 < l \<and> st + l = k \<and> zero_run H st l)"

fun scope_ok :: "string option \<Rightarrow> bool" where
  \<comment> \<open>A scope id that \<open>IPv6Address\<close> can return.\<close>
  "scope_ok None = True"
| "scope_ok (Some s) = (s \<noteq> [] \<and> CHR ''%'' \<notin> set s \<and> CHR ''/'' \<notin> set s)"

fun max_prefixlen :: "address \<Rightarrow> nat" where
  \<comment> \<open>\<open>ip.max_prefixlen\<close>.\<close>
  "max_prefixlen (V4 ip) = 32"
| "max_prefixlen (V6 ip scope_id) = 128"

fun address_ok :: "address \<Rightarrow> bool" where
  \<comment> \<open>An address that the library can return: the integer fits its width.\<close>
  "address_ok (V4 ip) = (ip < 2 ^ 32)"
| "address_ok (V6 ip scope_id) = (ip < 2 ^ 128 \<and> scope_ok scope_id)"

fun zero_host_bits :: "address \<Rightarrow> nat \<Rightarrow> address" where
  \<comment> \<open>The network address for a prefix length: the bits below the prefix are zero.
      An IPv6 scope id stays when that changes nothing and goes otherwise.\<close>
  "zero_host_bits (V4 ip) k = V4 (ip div 2 ^ (32 - k) * 2 ^ (32 - k))"
| "zero_host_bits (V6 ip scope_id) k =
     V6 (ip div 2 ^ (128 - k) * 2 ^ (128 - k))
        (if ip div 2 ^ (128 - k) * 2 ^ (128 - k) \<noteq> ip then None else scope_id)"

section \<open>Facts about trimming and the name pattern\<close>

lemma strip_Nil [simp]: "strip [] = []"
  by (simp add: strip_def)

lemma strip_hd: "strip s \<noteq> [] \<Longrightarrow> \<not> isspace (hd (strip s))"
proof -
  assume ne: "strip s \<noteq> []"
  let ?t = "dropWhile isspace s"
  let ?u = "dropWhile isspace (rev ?t)"
  from ne have u: "?u \<noteq> []" by (simp add: strip_def)
  have t: "?t \<noteq> []"
    using u by (metis dropWhile.simps(1) rev.simps(1))
  have "rev ?t = takeWhile isspace (rev ?t) @ ?u" by simp
  then have "?t = rev ?u @ rev (takeWhile isspace (rev ?t))"
    by (metis rev_append rev_rev_ident)
  with u have "hd ?t = hd (rev ?u)" by (metis hd_append2 rev_is_Nil_conv)
  moreover from t have "\<not> isspace (hd ?t)" by (rule hd_dropWhile)
  ultimately show ?thesis by (simp add: strip_def)
qed

lemma strip_last: "strip s \<noteq> [] \<Longrightarrow> \<not> isspace (last (strip s))"
proof -
  assume ne: "strip s \<noteq> []"
  let ?u = "dropWhile isspace (rev (dropWhile isspace s))"
  from ne have u: "?u \<noteq> []" by (simp add: strip_def)
  then have "\<not> isspace (hd ?u)" by (rule hd_dropWhile)
  with u show ?thesis by (simp add: strip_def last_rev)
qed

lemma strip_id: "s \<noteq> [] \<Longrightarrow> \<not> isspace (hd s) \<Longrightarrow> \<not> isspace (last s) \<Longrightarrow> strip s = s"
proof -
  assume ne: "s \<noteq> []" and h: "\<not> isspace (hd s)" and l: "\<not> isspace (last s)"
  from ne h have "dropWhile isspace s = s" by (cases s) auto
  moreover from ne l have "\<not> isspace (hd (rev s))" by (simp add: hd_rev)
  with ne have "dropWhile isspace (rev s) = rev s" by (cases "rev s") auto
  ultimately show ?thesis by (simp add: strip_def)
qed

lemma strip_strip [simp]: "strip (strip s) = strip s"
proof (cases "strip s = []")
  case True
  then show ?thesis by simp
next
  case False
  then show ?thesis by (intro strip_id strip_hd strip_last)
qed

lemma NAME_PATTERN_match_all:
  "s \<noteq> [] \<Longrightarrow> \<forall>c\<in>set s. name_char c \<Longrightarrow> NAME_PATTERN_match s"
  by (simp add: NAME_PATTERN_match_def Let_def takeWhile_eq_all_conv [THEN iffD2])

lemma NAME_PATTERN_match_Nil [simp]: "\<not> NAME_PATTERN_match []"
  by (simp add: NAME_PATTERN_match_def)

lemma NAME_PATTERN_match_cases:
  "NAME_PATTERN_match s \<longleftrightarrow>
     (\<exists>w. w \<noteq> [] \<and> (\<forall>c\<in>set w. name_char c) \<and> (s = w \<or> s = w @ [CHR 0x0A]))"
proof
  assume m: "NAME_PATTERN_match s"
  let ?w = "takeWhile name_char s"
  have s: "?w @ dropWhile name_char s = s" by (rule takeWhile_dropWhile_id)
  from m have w: "?w \<noteq> []"
    and r: "dropWhile name_char s = [] \<or> dropWhile name_char s = [CHR 0x0A]"
    unfolding NAME_PATTERN_match_def Let_def by blast+
  have a: "\<forall>c\<in>set ?w. name_char c" by (blast dest: set_takeWhileD)
  from r have "s = ?w \<or> s = ?w @ [CHR 0x0A]"
  proof
    assume "dropWhile name_char s = []"
    with s have "?w @ [] = s" by (simp only:)
    then have "s = ?w" by (simp only: append_Nil2)
    then show ?thesis by (rule disjI1)
  next
    assume "dropWhile name_char s = [CHR 0x0A]"
    with s have "?w @ [CHR 0x0A] = s" by (simp only:)
    then show ?thesis by (intro disjI2) (rule sym)
  qed
  with w a show "\<exists>w. w \<noteq> [] \<and> (\<forall>c\<in>set w. name_char c) \<and> (s = w \<or> s = w @ [CHR 0x0A])"
    by blast
next
  assume "\<exists>w. w \<noteq> [] \<and> (\<forall>c\<in>set w. name_char c) \<and> (s = w \<or> s = w @ [CHR 0x0A])"
  then obtain w where w: "w \<noteq> []" "\<forall>c\<in>set w. name_char c" "s = w \<or> s = w @ [CHR 0x0A]"
    by blast
  have nl: "\<not> name_char (CHR 0x0A)" by (simp add: name_char_def isspace_def)
  from w(3) show "NAME_PATTERN_match s"
  proof
    assume "s = w"
    with w(1) w(2) show ?thesis by (simp add: NAME_PATTERN_match_all)
  next
    assume e: "s = w @ [CHR 0x0A]"
    from w(2) nl have "takeWhile name_char (w @ [CHR 0x0A]) = w"
      by (simp add: takeWhile_append2)
    moreover from w(2) nl have "dropWhile name_char (w @ [CHR 0x0A]) = [CHR 0x0A]"
      by (simp add: dropWhile_append2)
    ultimately show ?thesis
      unfolding NAME_PATTERN_match_def Let_def e using w(1) by simp
  qed
qed

lemma NAME_PATTERN_match_no_final_newline:
  assumes "s = [] \<or> last s \<noteq> CHR 0x0A"
  shows "NAME_PATTERN_match s \<longleftrightarrow> s \<noteq> [] \<and> (\<forall>c\<in>set s. name_char c)"
proof
  assume "NAME_PATTERN_match s"
  then obtain w where w: "w \<noteq> []" "\<forall>c\<in>set w. name_char c" "s = w \<or> s = w @ [CHR 0x0A]"
    unfolding NAME_PATTERN_match_cases by blast
  have "s \<noteq> w @ [CHR 0x0A]"
  proof
    assume e: "s = w @ [CHR 0x0A]"
    then have "last s = CHR 0x0A" and "s \<noteq> []" by simp_all
    with assms show False by blast
  qed
  with w(3) have "s = w" by blast
  with w(1) w(2) show "s \<noteq> [] \<and> (\<forall>c\<in>set s. name_char c)" by blast
next
  assume "s \<noteq> [] \<and> (\<forall>c\<in>set s. name_char c)"
  then show "NAME_PATTERN_match s" by (simp add: NAME_PATTERN_match_all)
qed

lemma NAME_PATTERN_match_stripped:
  assumes "strip m \<noteq> []"
  shows "NAME_PATTERN_match (strip m) \<longleftrightarrow> \<not> bad_member m"
proof -
  from assms have "\<not> isspace (last (strip m))" by (rule strip_last)
  moreover have "isspace (CHR 0x0A)" by (simp add: isspace_def)
  ultimately have "last (strip m) \<noteq> CHR 0x0A" by metis
  then have "NAME_PATTERN_match (strip m) \<longleftrightarrow>
      strip m \<noteq> [] \<and> (\<forall>c\<in>set (strip m). name_char c)"
    by (intro NAME_PATTERN_match_no_final_newline disjI2)
  with assms show ?thesis unfolding bad_member_def name_char_def by blast
qed

lemma gen_group_loop_spec:
  "gen_group_loop (group_prefix P) g ms cmds =
     (case find (\<lambda>m. \<not> blank m \<and> bad_member m) ms of
        Some m \<Rightarrow> Inl (InvalidName MemberName (strip m))
      | None \<Rightarrow> Inr (cmds @ map (group_line P g) (filter (\<lambda>m. \<not> blank m) ms)))"
proof (induction ms arbitrary: cmds)
  case Nil
  then show ?case by simp
next
  case (Cons m ms)
  show ?case
  proof (cases "strip m = []")
    case True
    then show ?thesis by (simp add: Cons.IH blank_def split: option.splits)
  next
    case False
    then show ?thesis
      by (simp add: Cons.IH blank_def validate_member_name_def validate_name_def
          NAME_PATTERN_match_stripped group_line_def split: option.splits)
  qed
qed

lemma gen_group_loop_isl:
  "isl (gen_group_loop q g ms c) \<longleftrightarrow> isl (gen_group_loop q' g ms c')"
proof (induction ms arbitrary: c c')
  case Nil
  show ?case by simp
next
  case (Cons m ms)
  show ?case
  proof (cases "validate_member_name (strip m)")
    case (Inl e)
    then show ?thesis using Cons.IH [of c c'] by (simp add: Let_def)
  next
    case (Inr u)
    then show ?thesis
      using Cons.IH [of "c @ [q @ '' '' @ g @ '' static '' @ strip m]"
                        "c' @ [q' @ '' '' @ g @ '' static '' @ strip m]"]
        Cons.IH [of c c']
      by (simp add: Let_def)
  qed
qed

section \<open>Claims about names and command generation\<close>

text \<open>
  Claim C1, as the code has it. The claim speaks of a space; the pattern excludes every
  whitespace character, so a name with a tab in it is rejected too. For every string that
  does not end in a line feed, \<open>validate_name\<close> fails exactly when the string is empty
  or contains a whitespace character or a slash, and succeeds otherwise.
\<close>

theorem validate_name_fails_iff:
  "s = [] \<or> last s \<noteq> CHR 0x0A \<Longrightarrow>
   validate_name s w =
     (if s = [] \<or> (\<exists>c\<in>set s. isspace c \<or> c = CHR ''/'')
      then Inl (InvalidName w s) else Inr ())"
  using NAME_PATTERN_match_no_final_newline [of s]
  by (auto simp: validate_name_def name_char_def)

theorem validate_name_fails_iff_witness:
  "(''web1'' = [] \<or> last ''web1'' \<noteq> CHR 0x0A) \<and> validate_name ''web1'' Name = Inr ()
   \<and> (''a b'' = [] \<or> last ''a b'' \<noteq> CHR 0x0A) \<and> validate_name ''a b'' Name = Inl (InvalidName Name ''a b'')"
  using validate_name_fails_iff [of "''web1''" Name] validate_name_fails_iff [of "''a b''" Name]
  by (simp add: isspace_def)

text \<open>
  Claim C1 as stated fails: the string a, tab, b is not empty and contains neither a
  space nor a slash, and \<open>validate_name\<close> rejects it.
\<close>

theorem validate_name_tab_counterexample:
  "validate_name [CHR ''a'', CHR 0x09, CHR ''b''] Name
     = Inl (InvalidName Name [CHR ''a'', CHR 0x09, CHR ''b''])
   \<and> [CHR ''a'', CHR 0x09, CHR ''b''] \<noteq> []
   \<and> CHR '' '' \<notin> set [CHR ''a'', CHR 0x09, CHR ''b'']
   \<and> CHR ''/'' \<notin> set [CHR ''a'', CHR 0x09, CHR ''b'']"
  by (simp add: validate_name_def NAME_PATTERN_match_def name_char_def isspace_def)




text \<open>
  Claim C7: \<open>gen_group_cmd\<close> computes what the specification says. The first member that
  is not blank after trimming and whose trimmed form contains whitespace or a slash makes
  the whole call fail with that name and no command list; otherwise there is one line per
  non-blank member, in order, built from the platform's prefix, the group name and the
  trimmed member.
\<close>

theorem gen_group_cmd_spec:
  "gen_group_cmd (platform_name P) g ms = generateGroupCommands P g ms"
proof -
  have "(if platform_name P = ''Firewall'' then ''set address-group''
         else ''set shared address-group'') = group_prefix P"
    by (cases P) simp_all
  then show ?thesis
    by (simp add: gen_group_cmd_def generateGroupCommands_def gen_group_loop_spec
        split: option.splits)
qed

theorem gen_group_cmd_spec_witness:
  "gen_group_cmd ''Firewall'' ''grp1'' [''a'', ''  '', '' b '']
     = Inr [''set address-group grp1 static a'', ''set address-group grp1 static b'']
   \<and> gen_group_cmd ''Panorama'' ''grp1'' [''a'', ''x/y'', ''b''] = Inl (InvalidName MemberName ''x/y'')"
  using gen_group_cmd_spec [of Firewall "''grp1''" "[''a'', ''  '', '' b '']"]
    gen_group_cmd_spec [of Panorama "''grp1''" "[''a'', ''x/y'', ''b'']"]
  by (simp add: generateGroupCommands_def blank_def bad_member_def strip_def isspace_def
      group_line_def)

text \<open>
  Claim C10: the generators only test whether the platform string is \<open>Firewall\<close>. Any
  other string, not only \<open>Panorama\<close>, gives the shared dialect, and the platform never
  decides whether a call fails.
\<close>

theorem other_platform_is_shared:
  "platform \<noteq> ''Firewall'' \<Longrightarrow>
   gen_address_cmd platform name cidr = ''set shared address '' @ name @ '' ip-netmask '' @ cidr
   \<and> gen_group_cmd platform g ms = gen_group_loop ''set shared address-group'' g ms []
   \<and> gen_group_cmd platform g ms = gen_group_cmd ''Panorama'' g ms
   \<and> (isl (gen_group_cmd platform g ms) \<longleftrightarrow> isl (gen_group_cmd ''Firewall'' g ms))"
  using gen_group_loop_isl [of "''set shared address-group''" g ms "[]" "''set address-group''" "[]"]
  by (simp add: gen_address_cmd_def gen_group_cmd_def)

theorem other_platform_is_shared_witness:
  "''Cloud'' \<noteq> ''Firewall''
   \<and> gen_address_cmd ''Cloud'' ''web1'' ''10.0.0.1/32'' = ''set shared address web1 ip-netmask 10.0.0.1/32''
   \<and> gen_group_cmd ''Cloud'' ''grp1'' [''a''] = Inr [''set shared address-group grp1 static a'']"
  using other_platform_is_shared [of "''Cloud''" "''web1''" "''10.0.0.1/32''" "''grp1''" "[''a'']"]
  by (simp add: validate_member_name_def validate_name_def NAME_PATTERN_match_def
      name_char_def strip_def isspace_def)

section \<open>Facts about the batch readers\<close>

lemma read_names_nonempty: "read_names_from_file f = Inr names \<Longrightarrow> names \<noteq> []"
  by (auto simp: read_names_from_file_def split: sum.splits if_splits)

lemma str_join_unlines:
  "cs \<noteq> [] \<Longrightarrow> str_join sep cs @ sep = concat (map (\<lambda>c. c @ sep) cs)"
  by (induction sep cs rule: str_join.induct) simp_all

lemma map_zip_nth:
  "length xs = length ys \<Longrightarrow>
   map (\<lambda>(x, y). f x y) (zip xs ys) = map (\<lambda>i. f (xs ! i) (ys ! i)) [0 ..< length xs]"
  by (rule nth_equalityI) simp_all

lemma strip_eq_Nil: "strip s = [] \<longleftrightarrow> (\<forall>c\<in>set s. isspace c)"
proof
  assume "strip s = []"
  then have "dropWhile isspace (rev (dropWhile isspace s)) = []" by (simp add: strip_def)
  then have "\<forall>c\<in>set (dropWhile isspace s). isspace c" by (simp add: dropWhile_eq_Nil_conv)
  moreover have "\<forall>c\<in>set (takeWhile isspace s). isspace c" by (auto dest: set_takeWhileD)
  moreover have "set s = set (takeWhile isspace s) \<union> set (dropWhile isspace s)"
    by (metis set_append takeWhile_dropWhile_id)
  ultimately show "\<forall>c\<in>set s. isspace c" by blast
next
  assume "\<forall>c\<in>set s. isspace c"
  then have "dropWhile isspace s = []" by (simp add: dropWhile_eq_Nil_conv)
  then show "strip s = []"
    unfolding strip_def by (simp only: rev.simps dropWhile.simps)
qed

lemma str_split_ne [simp]: "str_split sep s \<noteq> []"
  by (induction s) simp_all

lemma str_split_set: "p \<in> set (str_split sep s) \<Longrightarrow> set p \<subseteq> set s"
proof (induction s arbitrary: p)
  case Nil
  then show ?case by simp
next
  case (Cons c cs)
  obtain q qs where q: "str_split sep cs = q # qs" by (cases "str_split sep cs") simp_all
  from Cons.IH q have "set q \<subseteq> set cs" and "\<forall>r\<in>set qs. set r \<subseteq> set cs" by auto
  with Cons.prems q show ?case by (auto split: if_splits)
qed

lemma stripped_members_blank:
  "strip ln = [] \<Longrightarrow> stripped_members (str_split sep ln) = []"
proof -
  assume "strip ln = []"
  then have a: "\<forall>c\<in>set ln. isspace c" by (simp add: strip_eq_Nil)
  have "\<forall>p\<in>set (str_split sep ln). strip p = []"
  proof
    fix p assume "p \<in> set (str_split sep ln)"
    then have "set p \<subseteq> set ln" by (rule str_split_set)
    with a show "strip p = []" unfolding strip_eq_Nil by blast
  qed
  then show ?thesis by (simp add: stripped_members_def filter_empty_conv)
qed

lemma stripped_members_strip [simp]:
  "stripped_members (map strip cells) = stripped_members cells"
  by (simp add: stripped_members_def filter_map comp_def)

lemma validate_members_find:
  "validate_members ms =
     (case find (\<lambda>m. \<not> NAME_PATTERN_match m) ms of
        Some m \<Rightarrow> Inl (InvalidName MemberName m)
      | None \<Rightarrow> Inr ())"
  by (induction ms) (simp_all add: validate_member_name_def validate_name_def)

lemma find_append_cases:
  "find P (xs @ ys) = (case find P xs of Some x \<Rightarrow> Some x | None \<Rightarrow> find P ys)"
  by (induction xs) simp_all

lemma members_txt_loop_rows:
  "members_txt_loop lns acc =
     (case find (\<lambda>m. \<not> NAME_PATTERN_match m)
             (concat (map (\<lambda>ln. stripped_members (str_split (CHR '','') ln)) lns)) of
        Some m \<Rightarrow> Inl (InvalidName MemberName m)
      | None \<Rightarrow> Inr (acc @ map (\<lambda>ln. stripped_members (str_split (CHR '','') ln)) lns))"
proof (induction lns arbitrary: acc)
  case Nil
  show ?case by simp
next
  case (Cons ln lns)
  show ?case
  proof (cases "strip ln = []")
    case True
    then show ?thesis by (simp add: Cons.IH stripped_members_blank split: option.splits)
  next
    case False
    then show ?thesis
      by (simp add: Cons.IH validate_members_find find_append_cases Let_def
          split: option.splits)
  qed
qed

lemma members_csv_loop_rows:
  "members_csv_loop rows acc =
     (case find (\<lambda>m. \<not> NAME_PATTERN_match m)
             (concat (map (\<lambda>row. stripped_members (tl row)) (filter (\<lambda>row. row \<noteq> []) rows))) of
        Some m \<Rightarrow> Inl (InvalidName MemberName m)
      | None \<Rightarrow>
          Inr (acc @ map (\<lambda>row. stripped_members (tl row)) (filter (\<lambda>row. row \<noteq> []) rows)))"
proof (induction rows arbitrary: acc)
  case Nil
  show ?case by simp
next
  case (Cons row rows)
  show ?case
    by (cases "row = []")
       (simp_all add: Cons.IH validate_members_find find_append_cases Let_def
          split: option.splits)
qed

lemma member_rows_text:
  "map (\<lambda>ln. stripped_members (str_split (CHR '','') ln)) (read_lines_plaintext lines)
     = member_rows (TextFile lines)"
  by (simp add: read_lines_plaintext_def members_of_line_def comp_def)

lemma member_rows_csv:
  "map (\<lambda>row. stripped_members (tl row)) (filter (\<lambda>row. row \<noteq> []) (read_csv_rows rows))
     = member_rows (CsvFile rows)"
  by (simp add: read_csv_rows_def members_of_row_def filter_map comp_def map_tl [symmetric])

lemma read_members_rows:
  "read_members_from_file f =
     (case find (\<lambda>m. \<not> NAME_PATTERN_match m) (concat (member_rows f)) of
        Some m \<Rightarrow> Inl (InvalidName MemberName m)
      | None \<Rightarrow> if member_rows f = [] then Inl NoMemberRows else Inr (member_rows f))"
proof (cases f)
  case (CsvFile rows)
  show ?thesis
    unfolding read_members_from_file_def CsvFile file_content.case members_csv_loop_rows
      member_rows_csv append_Nil
    by (simp split: option.splits)
next
  case (TextFile lines)
  show ?thesis
    unfolding read_members_from_file_def TextFile file_content.case members_txt_loop_rows
      member_rows_text append_Nil
    by (simp split: option.splits)
qed

lemma import_group_rejects:
  "read_names_from_file (content fg) = Inr groups \<Longrightarrow>
   read_members_from_file (content fm) = Inr rows \<Longrightarrow>
   length rows \<noteq> length groups \<or> [] \<in> set rows \<Longrightarrow>
   import_group_two_step p (Some fg) (Some fm) u =
     Inr (Some (if length rows \<noteq> length groups
                then CountMismatch (length groups) (length rows)
                else MemberMissing), u)"
  by (auto simp: import_group_two_step_def list_ex_iff)

lemmas eval_defs =
  strip_def isspace_def rstrip_newline_def
  validate_member_name_def validate_name_def NAME_PATTERN_match_def name_char_def
  read_names_from_file_def read_ips_from_file_def read_members_from_file_def
  read_lines_plaintext_def read_csv_rows_def stripped_members_def
  normalize_ip_or_cidr_def ip_address_def ip_network_def
  IPv4Address_def v4_ip_int_from_string_def parse_octet_def str_isdigit_def isdigit_def
  int_of_str_def digit_value_def digit_table_def from_bytes_def
  v4_string_from_ip_int_def str_nat.simps digit_char_def

section \<open>Claims about the imports\<close>

text \<open>
  Claim C8: once both files of an address import have been read, a difference between the
  number of names and the number of addresses is reported as a count mismatch and the
  window state, with it the displayed output, stays as it was; with equal counts the output
  is one command per position, built from the name and the address at that position.
\<close>

theorem import_address_pairs:
  "read_names_from_file (content fn) = Inr names \<Longrightarrow>
   read_ips_from_file (content fi) = Inr ips \<Longrightarrow>
   import_address_two_step p (Some fn) (Some fi) u =
     (if length names \<noteq> length ips
      then (Some (CountMismatch (length names) (length ips)), u)
      else (None, u\<lparr>output_text :=
                     concat (map (\<lambda>i. gen_address_cmd p (names ! i) (ips ! i) @ [CHR 0x0A])
                               [0 ..< length names]),
                   result_label := AddressCommandsFromFiles (basename fn) (basename fi)\<rparr>))"
proof -
  assume n: "read_names_from_file (content fn) = Inr names"
    and i: "read_ips_from_file (content fi) = Inr ips"
  from n have ne: "names \<noteq> []" by (rule read_names_nonempty)
  show ?thesis
  proof (cases "length names = length ips")
    case False
    with n i show ?thesis by (simp add: import_address_two_step_def)
  next
    case True
    with ne have z: "zip names ips \<noteq> []" by (cases names; cases ips) simp_all
    from True z n i show ?thesis
      by (simp add: import_address_two_step_def show_output_def str_join_unlines
          map_zip_nth comp_def)
  qed
qed

theorem import_address_pairs_witness:
  "import_address_two_step ''Firewall''
     (Some \<lparr>basename = ''names.txt'', content = TextFile [''n1'', ''n2'']\<rparr>)
     (Some \<lparr>basename = ''ips.txt'', content = TextFile [''1.1.1.1'']\<rparr>)
     \<lparr>output_text = ''old'', result_label = Prompt\<rparr>
   = (Some (CountMismatch 2 1), \<lparr>output_text = ''old'', result_label = Prompt\<rparr>)
   \<and> import_address_two_step ''Firewall''
     (Some \<lparr>basename = ''names.txt'', content = TextFile [''n1'']\<rparr>)
     (Some \<lparr>basename = ''ips.txt'', content = TextFile [''1.1.1.1'']\<rparr>)
     \<lparr>output_text = ''old'', result_label = Prompt\<rparr>
   = (None, \<lparr>output_text = ''set address n1 ip-netmask 1.1.1.1/32'' @ [CHR 0x0A],
              result_label = AddressCommandsFromFiles ''names.txt'' ''ips.txt''\<rparr>)"
proof -
  have n2: "read_names_from_file
      (content \<lparr>basename = ''names.txt'', content = TextFile [''n1'', ''n2'']\<rparr>) = Inr [''n1'', ''n2'']"
    by (simp add: eval_defs)
  have n1: "read_names_from_file
      (content \<lparr>basename = ''names.txt'', content = TextFile [''n1'']\<rparr>) = Inr [''n1'']"
    by (simp add: eval_defs)
  have i: "read_ips_from_file
      (content \<lparr>basename = ''ips.txt'', content = TextFile [''1.1.1.1'']\<rparr>) = Inr [''1.1.1.1/32'']"
    by (simp add: eval_defs)
  show ?thesis
    using import_address_pairs [OF n2 i, of "''Firewall''" "\<lparr>output_text = ''old'', result_label = Prompt\<rparr>"]
      import_address_pairs [OF n1 i, of "''Firewall''" "\<lparr>output_text = ''old'', result_label = Prompt\<rparr>"]
    by (simp add: gen_address_cmd_def)
qed

text \<open>
  Claim C9 at a CSV file with a row that has no cell, which is what a blank line of the
  file gives. The reader skips that row: alone it leaves no row and the reader fails, and
  between two rows it gets no member list, so that the import of the three-row file goes
  through with two groups and nothing is rejected. A CSV row whose only cell is blank and
  a blank line of a text file both get the empty list that the claim describes.
\<close>

theorem read_members_drops_blank_csv_row:
  "read_members_from_file (CsvFile [[]]) = Inl NoMemberRows
   \<and> read_members_from_file (CsvFile [[''g1'', ''a''], [], [''g2'', ''b'']]) = Inr [[''a''], [''b'']]
   \<and> read_members_from_file (CsvFile [[''g1'', ''a''], ['' ''], [''g2'', ''b'']])
       = Inr [[''a''], [], [''b'']]
   \<and> read_members_from_file (TextFile [''a'', [], ''b'']) = Inr [[''a''], [], [''b'']]
   \<and> import_group_two_step ''Firewall''
       (Some \<lparr>basename = ''groups.csv'', content = CsvFile [[''g1'', ''a''], [], [''g2'', ''b'']]\<rparr>)
       (Some \<lparr>basename = ''groups.csv'', content = CsvFile [[''g1'', ''a''], [], [''g2'', ''b'']]\<rparr>)
       \<lparr>output_text = [], result_label = Prompt\<rparr>
     = Inr (None,
         \<lparr>output_text = ''set address-group g1 static a'' @ [CHR 0x0A]
                         @ ''set address-group g2 static b'' @ [CHR 0x0A],
          result_label = GroupCommandsFromFiles ''groups.csv'' ''groups.csv''\<rparr>)"
  by (simp add: import_group_two_step_def read_names_from_file_def read_members_from_file_def
      read_csv_rows_def read_lines_plaintext_def rstrip_newline_def stripped_members_def
      validate_member_name_def validate_name_def NAME_PATTERN_match_def name_char_def
      strip_def isspace_def gen_group_cmd_def show_output_def)

section \<open>Facts about the address code\<close>

lemma less_16_cases:
  "(d::nat) < 16 \<Longrightarrow> d = 0 \<or> d = 1 \<or> d = 2 \<or> d = 3 \<or> d = 4 \<or> d = 5 \<or> d = 6 \<or> d = 7 \<or> d = 8
     \<or> d = 9 \<or> d = 10 \<or> d = 11 \<or> d = 12 \<or> d = 13 \<or> d = 14 \<or> d = 15"
  by arith

lemma less_10_cases:
  "(d::nat) < 10 \<Longrightarrow> d = 0 \<or> d = 1 \<or> d = 2 \<or> d = 3 \<or> d = 4 \<or> d = 5 \<or> d = 6 \<or> d = 7 \<or> d = 8
     \<or> d = 9"
  by arith

lemma digit_value_digit_char [simp]: "d < 16 \<Longrightarrow> digit_value (digit_char d) = d"
  by (drule less_16_cases) (elim disjE; simp add: digit_value_def digit_char_def digit_table_def)

lemma isdigit_digit_char [simp]: "d < 10 \<Longrightarrow> isdigit (digit_char d)"
  by (drule less_10_cases) (elim disjE; simp add: isdigit_def digit_char_def)

lemma digit_char_lower_hex [simp]: "d < 16 \<Longrightarrow> digit_char d \<in> lower_hex"
  by (drule less_16_cases) (elim disjE; simp add: lower_hex_def digit_char_def)

lemma digit_char_eq_0 [simp]: "d < 16 \<Longrightarrow> digit_char d = CHR ''0'' \<longleftrightarrow> d = 0"
  by (drule less_16_cases) (elim disjE; simp add: digit_char_def)

lemma isdigit_cases:
  "isdigit c \<Longrightarrow> c = CHR ''0'' \<or> c = CHR ''1'' \<or> c = CHR ''2'' \<or> c = CHR ''3'' \<or> c = CHR ''4''
     \<or> c = CHR ''5'' \<or> c = CHR ''6'' \<or> c = CHR ''7'' \<or> c = CHR ''8'' \<or> c = CHR ''9''"
  by (simp add: isdigit_def)

lemma isdigit_digit_value: "isdigit c \<Longrightarrow> digit_value c < 10 \<and> digit_char (digit_value c) = c"
  by (drule isdigit_cases) (elim disjE; simp add: digit_value_def digit_table_def digit_char_def)

lemma isdigit_lower_hex: "isdigit c \<Longrightarrow> c \<in> lower_hex"
  by (drule isdigit_cases) (elim disjE; simp add: lower_hex_def)

lemma hex_digit_value: "c \<in> set ''0123456789ABCDEFabcdef'' \<Longrightarrow> digit_value c < 16"
  by (simp add: digit_value_def digit_table_def; (elim disjE; simp))

lemma lower_hex_digit: "c \<in> lower_hex \<Longrightarrow> c \<in> set ''0123456789ABCDEFabcdef''"
  by (simp add: lower_hex_def; (elim disjE; simp))

lemma digit_value_eq_0: "isdigit c \<Longrightarrow> digit_value c = 0 \<longleftrightarrow> c = CHR ''0''"
  by (drule isdigit_cases) (elim disjE; simp add: digit_value_def digit_table_def)

lemma lower_hex_not_special:
  "c \<in> lower_hex \<Longrightarrow> c \<noteq> CHR '':'' \<and> c \<noteq> CHR ''.'' \<and> c \<noteq> CHR ''/'' \<and> c \<noteq> CHR ''%'' \<and> \<not> isspace c"
  by (simp add: lower_hex_def; (elim disjE; simp add: isspace_def))

lemma int_of_str_Nil [simp]: "int_of_str b [] = 0"
  by (simp add: int_of_str_def)

lemma int_of_str_snoc [simp]: "int_of_str b (s @ [c]) = b * int_of_str b s + digit_value c"
  by (simp add: int_of_str_def)

lemma foldl_digits_shift:
  "foldl (\<lambda>n c. b * n + digit_value c) a s = a * b ^ length s + foldl (\<lambda>n c. b * n + digit_value c) 0 s"
proof -
  define F where "F = (\<lambda>n c. b * n + digit_value c)"
  have "foldl F a s = a * b ^ length s + foldl F 0 s"
  proof (induction s rule: rev_induct)
    case Nil
    show ?case by simp
  next
    case (snoc c s)
    have "foldl F a (s @ [c]) = b * foldl F a s + digit_value c" by (simp add: F_def)
    also have "\<dots> = b * (a * b ^ length s + foldl F 0 s) + digit_value c" by (simp only: snoc.IH)
    also have "\<dots> = a * b ^ length (s @ [c]) + (b * foldl F 0 s + digit_value c)"
      by (simp add: algebra_simps)
    also have "b * foldl F 0 s + digit_value c = foldl F 0 (s @ [c])" by (simp add: F_def)
    finally show ?case .
  qed
  then show ?thesis by (simp only: F_def)
qed

lemma int_of_str_Cons: "int_of_str b (c # s) = digit_value c * b ^ length s + int_of_str b s"
  using foldl_digits_shift [of b "digit_value c" s] by (simp add: int_of_str_def)

lemma int_of_str_append:
  "int_of_str b (s @ t) = int_of_str b s * b ^ length t + int_of_str b t"
  using foldl_digits_shift [of b "int_of_str b s" t] by (simp add: int_of_str_def)

lemma int_of_str_less:
  "\<forall>c\<in>set s. digit_value c < b \<Longrightarrow> int_of_str b s < b ^ length s"
proof (induction s rule: rev_induct)
  case Nil
  show ?case by simp
next
  case (snoc c s)
  then have "int_of_str b s < b ^ length s" and d: "digit_value c < b" by simp_all
  then have "int_of_str b s + 1 \<le> b ^ length s" by simp
  then have "b * (int_of_str b s + 1) \<le> b * b ^ length s" by (rule mult_le_mono2)
  with d show ?case by simp
qed

lemma str_nat_small: "n < 10 \<Longrightarrow> str_nat n = [digit_char n]"
  by (simp add: str_nat.simps)

lemma str_nat_big: "\<not> n < 10 \<Longrightarrow> str_nat n = str_nat (n div 10) @ [digit_char (n mod 10)]"
  by (subst str_nat.simps) simp

lemma str_nat_ne [simp]: "str_nat n \<noteq> []"
  by (subst str_nat.simps) simp

lemma str_nat_digits: "list_all isdigit (str_nat n)"
proof (induction n rule: str_nat.induct)
  case (1 n)
  show ?case
  proof (cases "n < 10")
    case True
    then show ?thesis by (simp add: str_nat_small)
  next
    case False
    with 1 show ?thesis by (simp add: str_nat_big)
  qed
qed

lemma int_of_str_str_nat [simp]: "int_of_str 10 (str_nat n) = n"
proof (induction n rule: str_nat.induct)
  case (1 n)
  show ?case
  proof (cases "n < 10")
    case True
    then show ?thesis by (simp add: str_nat_small int_of_str_Cons)
  next
    case False
    with 1 show ?thesis by (simp add: str_nat_big)
  qed
qed

lemma str_nat_length: "n < 10 ^ k \<Longrightarrow> 0 < k \<Longrightarrow> length (str_nat n) \<le> k"
proof (induction n arbitrary: k rule: str_nat.induct)
  case (1 n)
  show ?case
  proof (cases "n < 10")
    case True
    with 1(3) show ?thesis by (simp add: str_nat_small)
  next
    case False
    from 1(3) obtain j where k: "k = Suc j" by (cases k) simp_all
    from False 1(2) k have j: "0 < j" by (cases j) simp_all
    from 1(2) k have "n div 10 < 10 ^ j" by (simp add: less_mult_imp_div_less mult.commute)
    with 1(1) False j have "length (str_nat (n div 10)) \<le> j" by simp
    with False k show ?thesis by (simp add: str_nat_big)
  qed
qed

lemma str_nat_hd: "hd (str_nat n) = CHR ''0'' \<longleftrightarrow> n = 0"
proof (induction n rule: str_nat.induct)
  case (1 n)
  show ?case
  proof (cases "n < 10")
    case True
    then show ?thesis by (simp add: str_nat_small)
  next
    case False
    then have "n div 10 \<noteq> 0" by simp
    with 1 False show ?thesis by (simp add: str_nat_big)
  qed
qed

lemma str_nat_eq_0: "str_nat n = ''0'' \<longleftrightarrow> n = 0"
proof
  assume "str_nat n = ''0''"
  then have "hd (str_nat n) = CHR ''0''" by simp
  then show "n = 0" by (simp add: str_nat_hd)
next
  assume "n = 0"
  then show "str_nat n = ''0''" by (simp add: str_nat_small digit_char_def)
qed

lemma digits_value_pos:
  "s \<noteq> [] \<Longrightarrow> list_all isdigit s \<Longrightarrow> hd s \<noteq> CHR ''0'' \<Longrightarrow> 0 < int_of_str 10 s"
proof -
  assume "s \<noteq> []" and d: "list_all isdigit s" and h: "hd s \<noteq> CHR ''0''"
  then obtain c t where s: "s = c # t" by (cases s) simp_all
  with d h have "digit_value c \<noteq> 0" by (simp add: digit_value_eq_0)
  then show ?thesis by (simp add: s int_of_str_Cons)
qed

lemma str_nat_int_of_str:
  "s \<noteq> [] \<Longrightarrow> list_all isdigit s \<Longrightarrow> s = ''0'' \<or> hd s \<noteq> CHR ''0'' \<Longrightarrow>
   str_nat (int_of_str 10 s) = s"
proof (induction s rule: rev_induct)
  case Nil
  then show ?case by simp
next
  case (snoc c t)
  from snoc.prems(2) have c: "isdigit c" and t: "list_all isdigit t" by simp_all
  from c have cv: "digit_value c < 10" "digit_char (digit_value c) = c"
    by (simp_all add: isdigit_digit_value)
  show ?case
  proof (cases "t = []")
    case True
    with cv show ?thesis by (simp add: str_nat_small int_of_str_Cons)
  next
    case False
    with snoc.prems(3) have h: "hd t \<noteq> CHR ''0''" by (cases t) auto
    with False t have pos: "0 < int_of_str 10 t" by (rule digits_value_pos)
    from False t h have "str_nat (int_of_str 10 t) = t" by (intro snoc.IH) simp_all
    moreover from pos have "\<not> 10 * int_of_str 10 t + digit_value c < 10" by simp
    moreover from cv have "(10 * int_of_str 10 t + digit_value c) div 10 = int_of_str 10 t"
      and "(10 * int_of_str 10 t + digit_value c) mod 10 = digit_value c" by simp_all
    ultimately show ?thesis using cv by (simp add: str_nat_big)
  qed
qed

lemma str_split_no_sep: "sep \<notin> set s \<Longrightarrow> str_split sep s = [s]"
  by (induction s) auto

lemma str_split_append:
  "sep \<notin> set a \<Longrightarrow> str_split sep (a @ sep # b) = a # str_split sep b"
  by (induction a) auto

lemma str_split_parts: "p \<in> set (str_split sep s) \<Longrightarrow> sep \<notin> set p"
proof (induction s arbitrary: p)
  case Nil
  then show ?case by simp
next
  case (Cons c cs)
  obtain q qs where q: "str_split sep cs = q # qs" by (cases "str_split sep cs") simp_all
  from Cons.IH q have "sep \<notin> set q" and "\<forall>r\<in>set qs. sep \<notin> set r" by auto
  with Cons.prems q show ?case by (auto split: if_splits)
qed

lemma str_split_join:
  "parts \<noteq> [] \<Longrightarrow> \<forall>p\<in>set parts. sep \<notin> set p \<Longrightarrow>
   str_split sep (str_join [sep] parts) = parts"
proof (induction "[sep]" parts rule: str_join.induct)
  case 1
  then show ?case by simp
next
  case (2 p)
  then show ?case by (simp add: str_split_no_sep)
next
  case (3 p q ps)
  then show ?case by (simp add: str_split_append)
qed

lemma str_join_split: "str_join [sep] (str_split sep s) = s"
proof (induction s)
  case Nil
  show ?case by simp
next
  case (Cons c cs)
  obtain q qs where q: "str_split sep cs = q # qs" by (cases "str_split sep cs") simp_all
  show ?case
  proof (cases "c = sep")
    case True
    with Cons q show ?thesis by simp
  next
    case False
    with Cons q show ?thesis by (cases qs) simp_all
  qed
qed

lemma str_join_set: "set (str_join sep parts) \<subseteq> set sep \<union> \<Union> (set ` set parts)"
  by (induction sep parts rule: str_join.induct) auto

lemma str_join_Nil_iff: "str_join [sep] parts = [] \<longleftrightarrow> parts = [] \<or> parts = [[]]"
  by (induction "[sep]" parts rule: str_join.induct) simp_all

lemma str_join_hd:
  "parts \<noteq> [] \<Longrightarrow> hd parts \<noteq> [] \<Longrightarrow> hd (str_join sep parts) = hd (hd parts)"
  by (induction sep parts rule: str_join.induct) simp_all

lemma isdigit_not_special:
  "isdigit c \<Longrightarrow> c \<noteq> CHR '':'' \<and> c \<noteq> CHR ''.'' \<and> c \<noteq> CHR ''/'' \<and> c \<noteq> CHR ''%'' \<and> \<not> isspace c"
  by (rule lower_hex_not_special) (rule isdigit_lower_hex)

lemma str_nat_chars: "c \<in> set (str_nat n) \<Longrightarrow> isdigit c"
  using str_nat_digits [of n] by (simp add: list_all_iff)

lemma parse_octet_str_nat: "b < 256 \<Longrightarrow> parse_octet (str_nat b) = Some b"
proof -
  assume b: "b < 256"
  then have "b < 10 ^ 3" by simp
  then have "length (str_nat b) \<le> 3" by (rule str_nat_length) simp
  moreover have "\<not> (str_nat b \<noteq> ''0'' \<and> hd (str_nat b) = CHR ''0'')"
    by (auto simp: str_nat_hd str_nat_eq_0)
  ultimately show ?thesis
    using b by (simp add: parse_octet_def str_isdigit_def str_nat_digits)
qed

lemma parse_octet_Some:
  "parse_octet s = Some b \<Longrightarrow> b < 256 \<and> str_nat b = s"
proof -
  assume p: "parse_octet s = Some b"
  then have ne: "s \<noteq> []" and d: "list_all isdigit s"
    and z: "s = ''0'' \<or> hd s \<noteq> CHR ''0''" and b: "b = int_of_str 10 s" and le: "b \<le> 255"
    by (auto simp: parse_octet_def str_isdigit_def Let_def split: if_splits)
  from ne d z have "str_nat (int_of_str 10 s) = s" by (rule str_nat_int_of_str)
  with b le show ?thesis by simp
qed

lemma from_bytes_4:
  "from_bytes [a, b, c, d] = 256 * (256 * (256 * a + b) + c) + d"
  by (simp add: from_bytes_def)

lemma div_2_16: "(x::nat) div 2 ^ 16 = x div 256 div 256"
  by (simp add: div_mult2_eq [symmetric])

lemma div_2_24: "(x::nat) div 2 ^ 24 = x div 256 div 256 div 256"
  by (simp add: div_mult2_eq [symmetric])

lemma div_2_8: "(x::nat) div 2 ^ 8 = x div 256"
  by simp

lemma mod_256: "d < 256 \<Longrightarrow> (256 * n + d) mod 256 = (d::nat)"
  by simp

lemma div_256: "d < 256 \<Longrightarrow> (256 * n + d) div 256 = (n::nat)"
  by simp

lemma to_bytes_from_bytes:
  assumes "a < 256" "b < 256" "c < 256" "d < 256"
  shows "from_bytes [a, b, c, d] div 2 ^ 24 mod 256 = a"
    and "from_bytes [a, b, c, d] div 2 ^ 16 mod 256 = b"
    and "from_bytes [a, b, c, d] div 2 ^ 8 mod 256 = c"
    and "from_bytes [a, b, c, d] mod 256 = d"
    and "from_bytes [a, b, c, d] < 2 ^ 32"
proof -
  let ?x = "from_bytes [a, b, c, d]"
  from assms(4) have d1: "?x div 256 = 256 * (256 * a + b) + c"
    by (simp only: from_bytes_4 div_256)
  from assms(3) have d2: "?x div 256 div 256 = 256 * a + b" by (simp only: d1 div_256)
  from assms(2) have d3: "?x div 256 div 256 div 256 = a" by (simp only: d2 div_256)
  from assms(1) show "?x div 2 ^ 24 mod 256 = a" by (simp only: div_2_24 d3 mod_less)
  from assms(2) show "?x div 2 ^ 16 mod 256 = b" by (simp only: div_2_16 d2 mod_256)
  from assms(3) show "?x div 2 ^ 8 mod 256 = c" by (simp only: div_2_8 d1 mod_256)
  from assms(4) show "?x mod 256 = d" by (simp only: from_bytes_4 mod_256)
  from assms have "a \<le> 255" "b \<le> 255" "c \<le> 255" "d \<le> 255" by simp_all
  then have "256 * (256 * (256 * a + b) + c) + d
      \<le> 256 * (256 * (256 * 255 + 255) + 255) + 255"
    by (intro add_mono mult_le_mono2)
  then show "?x < 2 ^ 32" by (simp add: from_bytes_4)
qed

lemma from_bytes_to_bytes:
  assumes "x < 2 ^ 32"
  shows "from_bytes [x div 2 ^ 24 mod 256, x div 2 ^ 16 mod 256, x div 2 ^ 8 mod 256, x mod 256] = x"
proof -
  define y1 where "y1 = x div 256"
  define y2 where "y2 = y1 div 256"
  define y3 where "y3 = y2 div 256"
  have a: "x = 256 * y1 + x mod 256" by (simp add: y1_def)
  have b: "y1 = 256 * y2 + y1 mod 256" by (simp add: y2_def)
  have c: "y2 = 256 * y3 + y2 mod 256" by (simp add: y3_def)
  from assms have "y1 < 2 ^ 24" by (simp add: y1_def less_mult_imp_div_less)
  then have "y2 < 2 ^ 16" by (simp add: y2_def less_mult_imp_div_less)
  then have "y3 < 256" by (simp add: y3_def less_mult_imp_div_less)
  then have d: "y3 mod 256 = y3" by simp
  have "from_bytes [x div 2 ^ 24 mod 256, x div 2 ^ 16 mod 256, x div 2 ^ 8 mod 256, x mod 256]
      = 256 * (256 * (256 * (y3 mod 256) + y2 mod 256) + y1 mod 256) + x mod 256"
    by (simp only: from_bytes_4 div_2_24 div_2_16 div_2_8 y1_def y2_def y3_def)
  also have "\<dots> = 256 * (256 * y2 + y1 mod 256) + x mod 256" using c d by simp
  also have "\<dots> = 256 * y1 + x mod 256" using b by simp
  also have "\<dots> = x" using a by simp
  finally show ?thesis .
qed

lemma v4_string_chars:
  "c \<in> set (v4_string_from_ip_int x) \<Longrightarrow> isdigit c \<or> c = CHR ''.''"
proof -
  assume "c \<in> set (v4_string_from_ip_int x)"
  then have "c \<in> set ''.'' \<union> \<Union> (set ` set (map str_nat
      [x div 2 ^ 24 mod 256, x div 2 ^ 16 mod 256, x div 2 ^ 8 mod 256, x mod 256]))"
    unfolding v4_string_from_ip_int_def using str_join_set by blast
  then show ?thesis by (auto dest: str_nat_chars)
qed

lemma v4_string_ne: "v4_string_from_ip_int x \<noteq> []"
  by (simp add: v4_string_from_ip_int_def)

lemma v4_string_hd: "isdigit (hd (v4_string_from_ip_int x))"
proof -
  have "hd (v4_string_from_ip_int x) = hd (str_nat (x div 2 ^ 24 mod 256))"
    by (simp add: v4_string_from_ip_int_def)
  also have "\<dots> \<in> set (str_nat (x div 2 ^ 24 mod 256))" by simp
  finally show ?thesis by (rule str_nat_chars)
qed

lemma v4_ip_int_from_string_format:
  assumes "x < 2 ^ 32"
  shows "v4_ip_int_from_string (v4_string_from_ip_int x) = Some x"
proof -
  let ?bs = "[x div 2 ^ 24 mod 256, x div 2 ^ 16 mod 256, x div 2 ^ 8 mod 256, x mod 256]"
  have "\<forall>p\<in>set (map str_nat ?bs). CHR ''.'' \<notin> set p"
    by (auto dest!: str_nat_chars isdigit_not_special)
  then have sp: "str_split (CHR ''.'') (v4_string_from_ip_int x) = map str_nat ?bs"
    unfolding v4_string_from_ip_int_def by (intro str_split_join) simp_all
  have len: "length (map str_nat ?bs) = 4" by simp
  have th: "those (map parse_octet (map str_nat ?bs)) = Some ?bs"
    by (simp add: parse_octet_str_nat)
  have fb: "from_bytes ?bs = x" using assms by (rule from_bytes_to_bytes)
  show ?thesis
    unfolding v4_ip_int_from_string_def sp Let_def
    by (simp only: v4_string_ne len th fb option.map if_False simp_thms)
qed

lemma IPv4Address_format: "x < 2 ^ 32 \<Longrightarrow> IPv4Address (v4_string_from_ip_int x) = Some x"
  by (auto simp: IPv4Address_def v4_ip_int_from_string_format
      dest!: v4_string_chars isdigit_not_special)

lemma those_4:
  "those [a, b, c, d] = Some r \<Longrightarrow>
   \<exists>a' b' c' d'. a = Some a' \<and> b = Some b' \<and> c = Some c' \<and> d = Some d' \<and> r = [a', b', c', d']"
  by (auto split: option.splits)

lemma v4_ip_int_from_string_Some:
  assumes "v4_ip_int_from_string a = Some x"
  shows "v4_string_from_ip_int x = a \<and> x < 2 ^ 32"
proof -
  let ?os = "str_split (CHR ''.'') a"
  from assms have len: "length ?os = 4"
    and th: "map_option from_bytes (those (map parse_octet ?os)) = Some x"
    by (auto simp: v4_ip_int_from_string_def Let_def split: if_splits)
  from len obtain o1 o2 o3 o4 where os: "?os = [o1, o2, o3, o4]"
    by (auto simp: length_Suc_conv numeral_eq_Suc)
  from th obtain bs where bs: "those (map parse_octet ?os) = Some bs" and x: "x = from_bytes bs"
    by auto
  from bs os have "those [parse_octet o1, parse_octet o2, parse_octet o3, parse_octet o4] = Some bs"
    by (simp only: list.map)
  from this [THEN those_4] obtain b1 b2 b3 b4 where
    p: "parse_octet o1 = Some b1" "parse_octet o2 = Some b2" "parse_octet o3 = Some b3"
       "parse_octet o4 = Some b4" and bs4: "bs = [b1, b2, b3, b4]"
    by blast
  from p have lt: "b1 < 256" "b2 < 256" "b3 < 256" "b4 < 256"
    and st: "str_nat b1 = o1" "str_nat b2 = o2" "str_nat b3 = o3" "str_nat b4 = o4"
    by (auto dest: parse_octet_Some)
  from lt have "v4_string_from_ip_int x = str_join ''.'' [o1, o2, o3, o4]"
    unfolding v4_string_from_ip_int_def x bs4
    by (simp only: to_bytes_from_bytes st list.map)
  also have "\<dots> = a" unfolding os [symmetric] by (rule str_join_split)
  finally have "v4_string_from_ip_int x = a" .
  moreover from lt have "x < 2 ^ 32" unfolding x bs4 by (rule to_bytes_from_bytes)
  ultimately show ?thesis ..
qed

lemma IPv4Address_Some: "IPv4Address a = Some x \<Longrightarrow> v4_string_from_ip_int x = a \<and> x < 2 ^ 32"
  by (auto simp: IPv4Address_def dest: v4_ip_int_from_string_Some split: if_splits)

lemma IPv4Address_chars: "IPv4Address a = Some x \<Longrightarrow> c \<in> set a \<Longrightarrow> isdigit c \<or> c = CHR ''.''"
  using IPv4Address_Some v4_string_chars by blast

lemma IPv4Address_strip: "IPv4Address a = Some x \<Longrightarrow> strip a = a"
proof -
  assume v: "IPv4Address a = Some x"
  then have a: "a = v4_string_from_ip_int x" by (simp add: IPv4Address_Some)
  have ne: "a \<noteq> []" unfolding a by (rule v4_string_ne)
  then have "hd a \<in> set a" "last a \<in> set a" by simp_all
  with v have "isdigit (hd a) \<or> hd a = CHR ''.''" "isdigit (last a) \<or> last a = CHR ''.''"
    by (auto dest: IPv4Address_chars)
  then have "\<not> isspace (hd a)" "\<not> isspace (last a)"
    by (auto dest: isdigit_not_special simp: isspace_def)
  with ne show ?thesis by (intro strip_id)
qed

lemma hex_small: "n < 16 \<Longrightarrow> hex n = [digit_char n]"
  by (simp add: hex.simps)

lemma hex_big: "\<not> n < 16 \<Longrightarrow> hex n = hex (n div 16) @ [digit_char (n mod 16)]"
  by (subst hex.simps) simp

lemma hex_ne [simp]: "hex n \<noteq> []"
  by (subst hex.simps) simp

lemma hex_chars: "c \<in> set (hex n) \<Longrightarrow> c \<in> lower_hex"
proof (induction n rule: hex.induct)
  case (1 n)
  show ?case
  proof (cases "n < 16")
    case True
    with 1(2) show ?thesis by (simp add: hex_small)
  next
    case False
    with 1 show ?thesis by (auto simp: hex_big)
  qed
qed

lemma int_of_str_hex [simp]: "int_of_str 16 (hex n) = n"
proof (induction n rule: hex.induct)
  case (1 n)
  show ?case
  proof (cases "n < 16")
    case True
    then show ?thesis by (simp add: hex_small int_of_str_Cons)
  next
    case False
    with 1 show ?thesis by (simp add: hex_big)
  qed
qed

lemma hex_length: "n < 16 ^ k \<Longrightarrow> 0 < k \<Longrightarrow> length (hex n) \<le> k"
proof (induction n arbitrary: k rule: hex.induct)
  case (1 n)
  show ?case
  proof (cases "n < 16")
    case True
    with 1(3) show ?thesis by (simp add: hex_small)
  next
    case False
    from 1(3) obtain j where k: "k = Suc j" by (cases k) simp_all
    from False 1(2) k have j: "0 < j" by (cases j) simp_all
    from 1(2) k have "n div 16 < 16 ^ j" by (simp add: less_mult_imp_div_less mult.commute)
    with 1(1) False j have "length (hex (n div 16)) \<le> j" by simp
    with False k show ?thesis by (simp add: hex_big)
  qed
qed

lemma hex_hd: "hd (hex n) = CHR ''0'' \<longleftrightarrow> n = 0"
proof (induction n rule: hex.induct)
  case (1 n)
  show ?case
  proof (cases "n < 16")
    case True
    then show ?thesis by (simp add: hex_small)
  next
    case False
    then have "n div 16 \<noteq> 0" by simp
    with 1 False show ?thesis by (simp add: hex_big)
  qed
qed

lemma hex_eq_0: "hex n = ''0'' \<longleftrightarrow> n = 0"
proof
  assume "hex n = ''0''"
  then have "hd (hex n) = CHR ''0''" by simp
  then show "n = 0" by (simp add: hex_hd)
next
  assume "n = 0"
  then show "hex n = ''0''" by (simp add: hex_small digit_char_def)
qed

lemma parse_hextet_hex: "h < 65536 \<Longrightarrow> parse_hextet (hex h) = Some h"
proof -
  assume "h < 65536"
  then have "h < 16 ^ 4" by simp
  then have "length (hex h) \<le> 4" by (rule hex_length) simp
  moreover have "set (hex h) \<subseteq> set ''0123456789ABCDEFabcdef''"
    using hex_chars lower_hex_digit by blast
  ultimately show ?thesis by (simp add: parse_hextet_def)
qed

lemma parse_hextet_Some: "parse_hextet s = Some h \<Longrightarrow> h < 65536"
proof -
  assume p: "parse_hextet s = Some h"
  then have c: "set s \<subseteq> set ''0123456789ABCDEFabcdef''" and l: "length s \<le> 4"
    and h: "h = int_of_str 16 s"
    by (auto simp: parse_hextet_def split: if_splits)
  from c have "\<forall>c\<in>set s. digit_value c < 16" using hex_digit_value by blast
  then have "int_of_str 16 s < 16 ^ length s" by (rule int_of_str_less)
  also from l have "(16::nat) ^ length s \<le> 16 ^ 4" by (intro power_increasing) simp_all
  finally show ?thesis by (simp add: h)
qed

lemma int_of_str_zeros [simp]: "int_of_str b (replicate k (CHR ''0'') @ s) = int_of_str b s"
  by (induction k) (simp_all add: int_of_str_Cons digit_value_def digit_table_def)

lemma hex_padded_length: "n < 16 ^ w \<Longrightarrow> 0 < w \<Longrightarrow> length (hex_padded w n) = w"
  using hex_length [of n w] by (simp add: hex_padded_def)

lemma int_of_str_hex_padded [simp]: "int_of_str 16 (hex_padded w n) = n"
  by (simp add: hex_padded_def)

lemma hex_padded_Suc:
  "0 < w \<Longrightarrow> hex_padded (Suc w) x = hex_padded w (x div 16) @ [digit_char (x mod 16)]"
proof (cases "x < 16")
  case True
  assume "0 < w"
  then obtain v where w: "w = Suc v" by (cases w) simp_all
  from True show ?thesis
    by (simp add: hex_padded_def hex_small w digit_char_def replicate_append_same)
next
  case False
  then show ?thesis by (simp add: hex_padded_def hex_big)
qed

lemma hex_padded_split:
  "0 < m \<Longrightarrow> 0 < n \<Longrightarrow>
   hex_padded (m + n) x = hex_padded m (x div 16 ^ n) @ hex_padded n (x mod 16 ^ n)"
proof (induction n arbitrary: x)
  case 0
  then show ?case by simp
next
  case (Suc n)
  show ?case
  proof (cases "n = 0")
    case True
    have "hex_padded 1 (x mod 16) = [digit_char (x mod 16)]"
      by (simp add: hex_padded_def hex_small)
    with Suc.prems(1) True show ?thesis by (simp add: hex_padded_Suc)
  next
    case False
    then have n: "0 < n" by simp
    have d: "x mod 16 ^ Suc n div 16 = x div 16 mod 16 ^ n"
      by (simp add: mod_mult2_eq)
    have m: "x mod 16 ^ Suc n mod 16 = x mod 16"
      by (simp add: mod_mod_cancel)
    have "hex_padded (m + Suc n) x = hex_padded (m + n) (x div 16) @ [digit_char (x mod 16)]"
      using Suc.prems(1) by (simp add: hex_padded_Suc)
    also have "\<dots> = hex_padded m (x div 16 div 16 ^ n) @ hex_padded n (x div 16 mod 16 ^ n)
        @ [digit_char (x mod 16)]"
      using Suc.IH [OF Suc.prems(1) n, of "x div 16"] by simp
    also have "hex_padded n (x div 16 mod 16 ^ n) @ [digit_char (x mod 16)]
        = hex_padded (Suc n) (x mod 16 ^ Suc n)"
      using n by (simp only: hex_padded_Suc d m)
    also have "x div 16 div 16 ^ n = x div 16 ^ Suc n"
      by (simp add: div_mult2_eq)
    finally show ?thesis .
  qed
qed

lemma hextet_of_less [simp]: "hextet_of x i < 65536"
  by (simp add: hextet_of_def)

lemma hex_slice:
  assumes "a + 4 + b = 32" "x < 16 ^ 32"
  shows "take 4 (drop a (hex_padded 32 x)) = hex_padded 4 (x div 16 ^ b mod 16 ^ 4)"
proof -
  let ?y = "x div 16 ^ b"
  have h32: "hex_padded 32 x = hex_padded (a + 4 + b) x" by (simp only: assms(1))
  from assms(2) have "x < 16 ^ (a + 4 + b)" by (simp only: assms(1))
  then have "x < 16 ^ (a + 4) * 16 ^ b" by (simp only: power_add)
  then have y: "?y < 16 ^ (a + 4)" by (simp add: less_mult_imp_div_less)
  then have "?y < 16 ^ a * 16 ^ 4" by (simp only: power_add)
  then have z: "?y div 16 ^ 4 < 16 ^ a" by (simp add: less_mult_imp_div_less)
  have l3: "length (hex_padded 4 (?y mod 16 ^ 4)) = 4" by (rule hex_padded_length) simp_all
  have front: "take 4 (drop a (hex_padded (a + 4) ?y)) = hex_padded 4 (?y mod 16 ^ 4)"
    and lf: "length (hex_padded (a + 4) ?y) = a + 4"
  proof -
    show "length (hex_padded (a + 4) ?y) = a + 4" using y by (rule hex_padded_length) simp
    show "take 4 (drop a (hex_padded (a + 4) ?y)) = hex_padded 4 (?y mod 16 ^ 4)"
    proof (cases "a = 0")
      case True
      with y have "?y mod 16 ^ 4 = ?y" by simp
      with True l3 show ?thesis by simp
    next
      case False
      then have a: "0 < a" by simp
      have s2: "hex_padded (a + 4) ?y = hex_padded a (?y div 16 ^ 4) @ hex_padded 4 (?y mod 16 ^ 4)"
        using a by (intro hex_padded_split) simp_all
      have l2: "length (hex_padded a (?y div 16 ^ 4)) = a" using z a by (rule hex_padded_length)
      show ?thesis unfolding s2 using l2 l3 by simp
    qed
  qed
  show ?thesis
  proof (cases "b = 0")
    case True
    then show ?thesis unfolding h32 using front by simp
  next
    case False
    then have b: "0 < b" by simp
    have s1: "hex_padded (a + 4 + b) x = hex_padded (a + 4) ?y @ hex_padded b (x mod 16 ^ b)"
      using b by (intro hex_padded_split) simp_all
    show ?thesis unfolding h32 s1 using front lf l3 by simp
  qed
qed

lemma hex_str_hextet:
  assumes "i < 8" "x < 2 ^ 128"
  shows "int_of_str 16 (take 4 (drop (4 * i) (hex_padded 32 x))) = hextet_of x i"
proof -
  from assms(2) have x: "x < 16 ^ 32" by simp
  from assms(1) have "4 * i + 4 + 4 * (7 - i) = 32" by simp
  from hex_slice [OF this x]
  have "int_of_str 16 (take 4 (drop (4 * i) (hex_padded 32 x))) = x div 16 ^ (4 * (7 - i)) mod 16 ^ 4"
    by simp
  also have "(16::nat) ^ (4 * (7 - i)) = 65536 ^ (7 - i)" by (simp add: power_mult)
  finally show ?thesis by (simp add: hextet_of_def)
qed

lemma v6_string_hextets:
  assumes "x < 2 ^ 128"
  shows "v6_string_from_ip_int x =
     str_join '':'' (compress_hextets (map (\<lambda>i. hex (hextet_of x i)) [0 ..< 8]))"
proof -
  have "map (\<lambda>k. hex (int_of_str 16 (take 4 (drop k (hex_padded 32 x))))) [0, 4, 8, 12, 16, 20, 24, 28]
      = map (\<lambda>i. hex (int_of_str 16 (take 4 (drop (4 * i) (hex_padded 32 x))))) [0 ..< 8]"
    by (simp add: upt_conv_Cons)
  also have "\<dots> = map (\<lambda>i. hex (hextet_of x i)) [0 ..< 8]"
    using assms by (intro map_cong refl) (simp add: hex_str_hextet)
  finally show ?thesis by (simp add: v6_string_from_ip_int_def Let_def del: upt_Suc)
qed

lemma and_nat_le: "(x::nat) AND y \<le> x"
proof -
  have "int (x AND y) \<le> int x" by (simp add: of_nat_and_eq)
  then show ?thesis by simp
qed

lemma push_bit_16_or: "h < 65536 \<Longrightarrow> push_bit 16 a OR h = a * 65536 + (h::nat)"
proof -
  assume "h < 65536"
  then have h: "take_bit 16 h = h" by (simp add: take_bit_nat_eq_self)
  have "push_bit 16 a + take_bit 16 h = push_bit 16 a OR take_bit 16 h"
    by (rule disjunctive_add) (auto simp: bit_simps)
  then show ?thesis by (simp add: h push_bit_eq_mult)
qed

lemma horner_simps [simp]:
  "horner acc [] = acc"
  "horner acc (h # hs) = horner (acc * 65536 + h) hs"
  "horner acc (hs @ hs') = horner (horner acc hs) hs'"
  by (simp_all add: horner_def)

lemma horner_zeros: "horner acc (replicate k 0) = acc * 65536 ^ k"
  by (induction k arbitrary: acc) simp_all

lemma horner_less: "\<forall>h\<in>set hs. h < 65536 \<Longrightarrow> acc < 65536 ^ k \<Longrightarrow>
  horner acc hs < 65536 ^ (k + length hs)"
proof (induction hs arbitrary: acc k)
  case Nil
  then show ?case by simp
next
  case (Cons h hs)
  from Cons.prems have "acc + 1 \<le> 65536 ^ k" and h: "h < 65536" by simp_all
  then have "(acc + 1) * 65536 \<le> 65536 ^ k * 65536" by (intro mult_le_mono1)
  with h have "acc * 65536 + h < 65536 ^ Suc k" by simp
  with Cons.prems(1) have "horner (acc * 65536 + h) hs < 65536 ^ (Suc k + length hs)"
    by (intro Cons.IH) simp_all
  then show ?case by simp
qed

lemma hextets_loop_hex:
  "\<forall>h\<in>set hs. h < 65536 \<Longrightarrow> hextets_loop (map hex hs) acc = Some (horner acc hs)"
  by (induction hs arbitrary: acc) (simp_all add: parse_hextet_hex push_bit_16_or)

lemma hextets_loop_Some:
  "hextets_loop ps acc = Some r \<Longrightarrow>
   \<exists>hs. length hs = length ps \<and> (\<forall>h\<in>set hs. h < 65536) \<and> r = horner acc hs"
proof (induction ps arbitrary: acc)
  case Nil
  then show ?case by simp
next
  case (Cons p ps)
  from Cons.prems obtain h where p: "parse_hextet p = Some h"
    and r: "hextets_loop ps (push_bit 16 acc OR h) = Some r"
    by (auto split: option.splits)
  from p have h: "h < 65536" by (rule parse_hextet_Some)
  from Cons.IH [OF r] obtain hs where hs: "length hs = length ps" "\<forall>h\<in>set hs. h < 65536"
    "r = horner (push_bit 16 acc OR h) hs" by blast
  with h have "length (h # hs) = length (p # ps) \<and> (\<forall>h\<in>set (h # hs). h < 65536)
      \<and> r = horner acc (h # hs)"
    by (simp add: push_bit_16_or)
  then show ?case by blast
qed

lemma horner_digits:
  "horner 0 (map (\<lambda>i. x div 65536 ^ (n - 1 - i) mod 65536) [0 ..< n]) = x mod 65536 ^ n"
proof (induction n arbitrary: x)
  case 0
  show ?case by simp
next
  case (Suc n)
  let ?f = "\<lambda>i. x div 65536 ^ (Suc n - 1 - i) mod 65536"
  let ?g = "\<lambda>i. (x div 65536) div 65536 ^ (n - 1 - i) mod 65536"
  have m: "map ?f [0 ..< n] = map ?g [0 ..< n]"
  proof (rule map_cong [OF refl])
    fix i assume "i \<in> set [0 ..< n]"
    then have "Suc n - 1 - i = Suc (n - 1 - i)" by auto
    then show "?f i = ?g i" by (simp add: div_mult2_eq)
  qed
  have "horner 0 (map ?f [0 ..< Suc n]) = horner (horner 0 (map ?f [0 ..< n])) [?f n]"
    by simp
  also have "\<dots> = horner (horner 0 (map ?g [0 ..< n])) [?f n]" by (simp only: m)
  also have "\<dots> = horner (x div 65536 mod 65536 ^ n) [?f n]" by (simp only: Suc.IH)
  also have "\<dots> = (x div 65536 mod 65536 ^ n) * 65536 + x mod 65536" by simp
  also have "\<dots> = x mod 65536 ^ Suc n" by (simp add: mod_mult2_eq)
  finally show ?case .
qed

lemma horner_hextets: "x < 2 ^ 128 \<Longrightarrow> horner 0 (map (hextet_of x) [0 ..< 8]) = x"
proof -
  assume "x < 2 ^ 128"
  then have x: "x mod 65536 ^ 8 = x" by simp
  have e: "hextet_of x = (\<lambda>i. x div 65536 ^ (8 - 1 - i) mod 65536)"
    by (rule ext) (simp add: hextet_of_def)
  have "horner 0 (map (hextet_of x) [0 ..< 8]) = x mod 65536 ^ 8"
    unfolding e by (rule horner_digits)
  then show ?thesis by (simp only: x)
qed

lemma zero_run_extend:
  "zero_run H st l \<Longrightarrow> st + l = k \<Longrightarrow> k < length H \<Longrightarrow> H ! k = ''0'' \<Longrightarrow> zero_run H st (Suc l)"
  unfolding zero_run_def by (auto simp: less_Suc_eq)

lemma zero_run_single: "k < length H \<Longrightarrow> H ! k = ''0'' \<Longrightarrow> zero_run H k (Suc 0)"
  unfolding zero_run_def by (auto simp: less_Suc_eq le_less)

lemma cur_ok_step:
  assumes "cur_ok H k s l" "k < length H" "H ! k = ''0''"
  shows "cur_ok H (Suc k) (if s = None then Some k else s) (l + 1)"
    and "best_ok H (if s = None then Some k else s) (l + 1)"
proof -
  have "\<exists>st. (if s = None then Some k else s) = Some st \<and> st + (l + 1) = Suc k
      \<and> zero_run H st (l + 1)"
  proof (cases s)
    case None
    with assms show ?thesis by (simp add: cur_ok_def zero_run_single)
  next
    case (Some st)
    with assms have "zero_run H st l" "st + l = k" by (simp_all add: cur_ok_def)
    with assms(2,3) have "zero_run H st (Suc l)" by (blast intro: zero_run_extend)
    with Some \<open>st + l = k\<close> show ?thesis by simp
  qed
  then show "cur_ok H (Suc k) (if s = None then Some k else s) (l + 1)"
    and "best_ok H (if s = None then Some k else s) (l + 1)"
    by (auto simp: cur_ok_def best_ok_def)
qed

lemma compress_loop_ok:
  "k \<le> length H \<Longrightarrow> best_ok H bs bl \<Longrightarrow> cur_ok H k s l \<Longrightarrow>
   compress_loop (drop k H) k (bs, bl, s, l) = (bs', bl', s', l') \<Longrightarrow> best_ok H bs' bl'"
proof (induction "length H - k" arbitrary: k bs bl s l)
  case 0
  then show ?case by simp
next
  case (Suc n)
  from Suc.hyps(2) have k: "k < length H" and n: "n = length H - Suc k" by simp_all
  from k have d: "drop k H = H ! k # drop (Suc k) H" by (simp add: Cons_nth_drop_Suc)
  show ?case
  proof (cases "H ! k = ''0''")
    case True
    note c = cur_ok_step [OF Suc.prems(3) k True]
    show ?thesis
    proof (cases "l + 1 > bl")
      case True
      with Suc.prems(4) \<open>H ! k = ''0''\<close>
      have "compress_loop (drop (Suc k) H) (Suc k)
          (if s = None then Some k else s, l + 1, if s = None then Some k else s, l + 1)
          = (bs', bl', s', l')"
        unfolding d by (simp add: Let_def)
      with n k c show ?thesis by (intro Suc.hyps(1)) simp_all
    next
      case False
      with Suc.prems(4) \<open>H ! k = ''0''\<close>
      have "compress_loop (drop (Suc k) H) (Suc k)
          (bs, bl, if s = None then Some k else s, l + 1) = (bs', bl', s', l')"
        unfolding d by (simp add: Let_def)
      with n k c Suc.prems(2) show ?thesis by (intro Suc.hyps(1)) simp_all
    qed
  next
    case False
    with Suc.prems(4) have "compress_loop (drop (Suc k) H) (Suc k) (bs, bl, None, 0) = (bs', bl', s', l')"
      unfolding d by simp
    moreover have "cur_ok H (Suc k) None 0" by (simp add: cur_ok_def)
    ultimately show ?thesis using n k Suc.prems(2) by (intro Suc.hyps(1)) simp_all
  qed
qed

lemma compress_hextets_cases:
  "compress_hextets H = H \<or>
   (\<exists>b n. 2 \<le> n \<and> zero_run H b n \<and>
      compress_hextets H =
        (if b = 0 then [[]] else take b H) @ [[]] @
        (if b + n = length H then [[]] else drop (b + n) H))"
proof -
  obtain bs bl s l where r: "compress_loop H 0 (None, 0, None, 0) = (bs, bl, s, l)"
    by (cases "compress_loop H 0 (None, 0, None, 0)") auto
  have "best_ok H bs bl"
    using compress_loop_ok [of 0 H None 0 None 0 bs bl s l] r
    by (simp add: best_ok_def cur_ok_def)
  show ?thesis
  proof (cases "bl > 1")
    case False
    with r show ?thesis by (simp add: compress_hextets_def)
  next
    case True
    with \<open>best_ok H bs bl\<close> obtain b where b: "bs = Some b" and z: "zero_run H b bl"
      by (auto simp: best_ok_def)
    from z have le: "b + bl \<le> length H" by (simp add: zero_run_def)
    have "compress_hextets H =
        (if b = 0 then [[]] else take b H) @ [[]] @
        (if b + bl = length H then [[]] else drop (b + bl) H)"
      using True r b le by (simp add: compress_hextets_def Let_def)
    with True z show ?thesis by (intro disjI2 exI [of _ b] exI [of _ bl]) simp
  qed
qed

lemma skip_index_loop_none:
  "\<forall>i\<in>set js. parts ! i \<noteq> [] \<Longrightarrow> skip_index_loop parts js acc = Some acc"
  by (induction js arbitrary: acc) simp_all

lemma skip_index_loop_append:
  "skip_index_loop parts (js @ ks) acc =
     (case skip_index_loop parts js acc of None \<Rightarrow> None | Some a \<Rightarrow> skip_index_loop parts ks a)"
  by (induction js arbitrary: acc) simp_all

lemma skip_index_loop_one:
  assumes "\<forall>i\<in>set js. parts ! i \<noteq> []" "parts ! k = []" "\<forall>i\<in>set ks. parts ! i \<noteq> []"
  shows "skip_index_loop parts (js @ k # ks) None = Some (Some k)"
  using assms by (simp add: skip_index_loop_append skip_index_loop_none)

lemma skip_index_middle:
  assumes "L \<noteq> []" "R \<noteq> []"
    and "\<forall>i. 1 \<le> i \<and> i < length L \<longrightarrow> L ! i \<noteq> []"
    and "\<forall>j. Suc j < length R \<longrightarrow> R ! j \<noteq> []"
  shows "skip_index_loop (L @ [] # R) [1 ..< length (L @ [] # R) - 1] None = Some (Some (length L))"
proof -
  let ?k = "length L"
  let ?parts = "L @ [] # R"
  from assms(1) have k: "1 \<le> ?k" by (cases L) simp_all
  from assms(2) have r: "1 \<le> length R" by (cases R) simp_all
  have "length ?parts - 1 = ?k + length R" by simp
  then have "[1 ..< length ?parts - 1] = [1 ..< ?k + length R]" by (simp only:)
  also have "\<dots> = [1 ..< ?k] @ [?k ..< ?k + length R]"
    using k by (rule upt_add_eq_append)
  also have "[?k ..< ?k + length R] = ?k # [Suc ?k ..< ?k + length R]"
    using assms(2) by (intro upt_conv_Cons) simp
  finally have e: "[1 ..< length ?parts - 1] = [1 ..< ?k] @ ?k # [Suc ?k ..< ?k + length R]" .
  have a: "\<forall>i\<in>set [1 ..< ?k]. ?parts ! i \<noteq> []"
    using assms(3) by (simp add: nth_append)
  have b: "?parts ! ?k = []" by simp
  have c: "\<forall>i\<in>set [Suc ?k ..< ?k + length R]. ?parts ! i \<noteq> []"
  proof
    fix i assume "i \<in> set [Suc ?k ..< ?k + length R]"
    then have i: "Suc ?k \<le> i" "i < ?k + length R" by simp_all
    then have "?parts ! i = R ! (i - Suc ?k)" by (simp add: nth_append nth_Cons')
    moreover from i have "Suc (i - Suc ?k) < length R" by simp
    ultimately show "?parts ! i \<noteq> []" using assms(4) by simp
  qed
  show ?thesis unfolding e using a b c by (rule skip_index_loop_one)
qed

lemma v6_counts_middle:
  assumes "L \<noteq> []" "R \<noteq> []"
    and "\<forall>i. 1 \<le> i \<and> i < length L \<longrightarrow> L ! i \<noteq> []"
    and "\<forall>j. Suc j < length R \<longrightarrow> R ! j \<noteq> []"
    and "hd L = [] \<longrightarrow> length L = 1" and "last R = [] \<longrightarrow> length R = 1"
    and hi: "hi = (if hd L = [] then 0 else length L)"
    and lo: "lo = (if last R = [] then 0 else length R)"
    and "hi + lo < 8"
  shows "v6_counts (L @ [] # R) = Some (hi, lo, 8 - (hi + lo))"
proof -
  have s: "skip_index_loop (L @ [] # R) [1 ..< length (L @ [] # R) - 1] None = Some (Some (length L))"
    using assms(1-4) by (rule skip_index_middle)
  have h: "hd (L @ [] # R) = hd L" using assms(1) by simp
  have l: "last (L @ [] # R) = last R" using assms(2) by simp
  show ?thesis
    unfolding v6_counts_def s h l using assms(5,6,9) by (auto simp: hi lo Let_def)
qed

lemma v6_counts_plain:
  assumes "length parts = 8" "\<forall>p\<in>set parts. p \<noteq> []"
  shows "v6_counts parts = Some (8, 0, 0)"
proof -
  have "\<forall>i\<in>set [1 ..< length parts - 1]. parts ! i \<noteq> []" using assms by simp
  then have s: "skip_index_loop parts [1 ..< length parts - 1] None = Some None"
    by (rule skip_index_loop_none)
  from assms have "parts \<noteq> []" by auto
  with assms(2) have "hd parts \<noteq> []" "last parts \<noteq> []" by simp_all
  with assms(1) show ?thesis unfolding v6_counts_def s by simp
qed

lemma v6_from_parts:
  assumes "\<forall>p\<in>set parts. CHR '':'' \<notin> set p" "3 \<le> length parts" "length parts \<le> 9"
    and "CHR ''.'' \<notin> set (last parts)" and "v6_counts parts = Some (hi, lo, sk)"
  shows "v6_ip_int_from_string (str_join '':'' parts) =
     (case hextets_loop (take hi parts) 0 of
        None \<Rightarrow> None
      | Some ip \<Rightarrow> hextets_loop (drop (length parts - lo) parts) (push_bit (16 * sk) ip))"
proof -
  from assms(2) have ne: "parts \<noteq> []" by auto
  from assms(2) obtain p q ps where "parts = p # q # ps" by (cases parts; cases "tl parts") auto
  then have j: "str_join '':'' parts \<noteq> []" by simp
  have sp: "str_split (CHR '':'') (str_join '':'' parts) = parts"
    using ne assms(1) by (rule str_split_join)
  have vp: "v6_parts parts = Some parts" using assms(4) by (simp add: v6_parts_def)
  show ?thesis
    unfolding v6_ip_int_from_string_def sp Let_def
    using j assms(2,3) by (simp add: vp assms(5))
qed

lemma hex_no_special: "CHR '':'' \<notin> set (hex h)" "CHR ''.'' \<notin> set (hex h)"
  using hex_chars lower_hex_not_special by blast+

lemma push_bit_horner: "push_bit (16 * n) y = horner y (replicate n 0)"
  by (simp add: horner_zeros push_bit_eq_mult power_mult)

lemma zeros_middle:
  assumes "b + n \<le> length hs" "\<forall>i. b \<le> i \<and> i < b + n \<longrightarrow> hs ! i = (0::nat)"
  shows "take b hs @ replicate n 0 @ drop (b + n) hs = hs"
proof -
  have "take n (drop b hs) = replicate n 0"
  proof (rule nth_equalityI)
    show "length (take n (drop b hs)) = length (replicate n (0::nat))" using assms(1) by simp
  next
    fix i assume "i < length (take n (drop b hs))"
    then have i: "i < n" by simp
    with assms(1) have "take n (drop b hs) ! i = hs ! (b + i)" by simp
    with i assms(2) show "take n (drop b hs) ! i = replicate n 0 ! i" by simp
  qed
  moreover have "hs = take b hs @ take n (drop b hs) @ drop (b + n) hs"
    by (metis append_take_drop_id drop_drop add.commute)
  ultimately show ?thesis by simp
qed

lemma v6_parse_plain:
  assumes "length hs = 8" "\<forall>h\<in>set hs. h < 65536"
  shows "v6_ip_int_from_string (str_join '':'' (map hex hs)) = Some (horner 0 hs)"
proof -
  let ?H = "map hex hs"
  have c: "v6_counts ?H = Some (8, 0, 0)" using assms(1) by (intro v6_counts_plain) simp_all
  have "?H \<noteq> []" using assms(1) by auto
  then have "last ?H \<in> set ?H" by (rule last_in_set)
  then have d: "CHR ''.'' \<notin> set (last ?H)" using hex_no_special(2) by auto
  have "v6_ip_int_from_string (str_join '':'' ?H) =
     (case hextets_loop (take 8 ?H) 0 of
        None \<Rightarrow> None
      | Some ip \<Rightarrow> hextets_loop (drop (length ?H - 0) ?H) (push_bit (16 * 0) ip))"
    using assms(1) d c by (intro v6_from_parts) (simp_all add: hex_no_special)
  also have "take 8 ?H = ?H" using assms(1) by simp
  also have "hextets_loop ?H 0 = Some (horner 0 hs)" using assms(2) by (rule hextets_loop_hex)
  finally show ?thesis by simp
qed

lemma v6_parse_compressed:
  assumes len: "length hs = 8" and lt: "\<forall>h\<in>set hs. h < 65536"
    and n: "2 \<le> n" and le: "b + n \<le> 8" and z: "\<forall>i. b \<le> i \<and> i < b + n \<longrightarrow> hs ! i = 0"
  shows "v6_ip_int_from_string (str_join '':''
      ((if b = 0 then [[]] else take b (map hex hs)) @ [[]] @
       (if b + n = 8 then [[]] else drop (b + n) (map hex hs)))) = Some (horner 0 hs)"
proof -
  let ?H = "map hex hs"
  define L where "L = (if b = 0 then [[]] else take b ?H)"
  define R where "R = (if b + n = 8 then [[]] else drop (b + n) ?H)"
  define parts where "parts = L @ [] # R"
  have Hne: "\<And>i. i < 8 \<Longrightarrow> ?H ! i \<noteq> []" using len by simp
  have lenL: "length L = (if b = 0 then 1 else b)" using len le by (simp add: L_def)
  have lenR: "length R = (if b + n = 8 then 1 else 8 - (b + n))" using len by (simp add: R_def)
  have Lne: "L \<noteq> []" using lenL by (auto split: if_splits)
  have Rne: "R \<noteq> []" using lenR le by (auto split: if_splits)
  have Lint: "\<forall>i. 1 \<le> i \<and> i < length L \<longrightarrow> L ! i \<noteq> []"
    using le len by (auto simp: L_def)
  have Rint: "\<forall>j. Suc j < length R \<longrightarrow> R ! j \<noteq> []"
    using le len by (auto simp: R_def)
  have hdL: "hd L = [] \<longleftrightarrow> b = 0"
  proof (cases "b = 0")
    case True
    then show ?thesis by (simp add: L_def)
  next
    case False
    then obtain b' where b': "b = Suc b'" by (cases b) simp_all
    from len obtain h hs' where "hs = h # hs'" by (cases hs) simp_all
    with False b' show ?thesis by (simp add: L_def)
  qed
  have lastR: "last R = [] \<longleftrightarrow> b + n = 8"
    using le len by (auto simp: R_def last_conv_nth)
  have counts: "v6_counts parts = Some (b, 8 - (b + n), 8 - (b + (8 - (b + n))))"
    unfolding parts_def using Lne Rne Lint Rint
  proof (rule v6_counts_middle)
    show "hd L = [] \<longrightarrow> length L = 1" by (simp add: hdL lenL)
    show "last R = [] \<longrightarrow> length R = 1" by (simp add: lastR lenR)
    show "b = (if hd L = [] then 0 else length L)" by (simp add: hdL lenL)
    show "8 - (b + n) = (if last R = [] then 0 else length R)" by (simp add: lastR lenR)
    show "b + (8 - (b + n)) < 8" using n le by simp
  qed
  have sk: "8 - (b + (8 - (b + n))) = n" using le by simp
  have chars: "\<forall>p\<in>set parts. CHR '':'' \<notin> set p"
    by (auto simp: parts_def L_def R_def hex_no_special dest!: in_set_takeD in_set_dropD
        split: if_splits)
  have len3: "3 \<le> length parts" using n le by (auto simp: parts_def lenL lenR)
  have len9: "length parts \<le> 9" using n le by (auto simp: parts_def lenL lenR)
  have "last parts = last R" using Rne by (simp add: parts_def)
  moreover have "CHR ''.'' \<notin> set (last R)"
  proof (cases "b + n = 8")
    case True
    then show ?thesis by (simp add: R_def)
  next
    case False
    from Rne have "last R \<in> set R" by (rule last_in_set)
    moreover from False have "set R = set (drop (b + n) ?H)" by (simp add: R_def)
    ultimately have "last R \<in> set (drop (b + n) ?H)" by blast
    then have "last R \<in> set ?H" by (rule in_set_dropD)
    then show ?thesis using hex_no_special(2) by auto
  qed
  ultimately have dot: "CHR ''.'' \<notin> set (last parts)" by simp
  have tk: "take b parts = map hex (take b hs)"
    using le len by (simp add: parts_def L_def take_map)
  have dr: "drop (length parts - (8 - (b + n))) parts = map hex (drop (b + n) hs)"
    using le len by (simp add: parts_def lenL lenR R_def drop_map)
  have lt1: "\<forall>h\<in>set (take b hs). h < 65536" using lt by (auto dest: in_set_takeD)
  have lt2: "\<forall>h\<in>set (drop (b + n) hs). h < 65536" using lt by (auto dest: in_set_dropD)
  have "v6_ip_int_from_string (str_join '':'' parts) =
     (case hextets_loop (take b parts) 0 of
        None \<Rightarrow> None
      | Some ip \<Rightarrow> hextets_loop (drop (length parts - (8 - (b + n))) parts)
          (push_bit (16 * (8 - (b + (8 - (b + n))))) ip))"
    using chars len3 len9 dot counts by (rule v6_from_parts)
  also have "\<dots> = hextets_loop (map hex (drop (b + n) hs))
      (push_bit (16 * n) (horner 0 (take b hs)))"
    unfolding tk dr sk by (simp add: hextets_loop_hex [OF lt1])
  also have "\<dots> = Some (horner (horner (horner 0 (take b hs)) (replicate n 0)) (drop (b + n) hs))"
    unfolding push_bit_horner using lt2 by (rule hextets_loop_hex)
  also have "\<dots> = Some (horner 0 (take b hs @ replicate n 0 @ drop (b + n) hs))" by simp
  also have "take b hs @ replicate n 0 @ drop (b + n) hs = hs"
    using le z by (intro zeros_middle) (simp_all add: len)
  finally show ?thesis by (simp add: parts_def L_def R_def)
qed

lemma v6_ip_int_from_string_format:
  assumes "x < 2 ^ 128"
  shows "v6_ip_int_from_string (v6_string_from_ip_int x) = Some x"
proof -
  let ?hs = "map (hextet_of x) [0 ..< 8]"
  let ?H = "map hex ?hs"
  have H: "map (\<lambda>i. hex (hextet_of x i)) [0 ..< 8] = ?H" by (simp add: comp_def)
  have s: "v6_string_from_ip_int x = str_join '':'' (compress_hextets ?H)"
    using assms by (simp only: v6_string_hextets H)
  have len: "length ?hs = 8" by simp
  have lt: "\<forall>h\<in>set ?hs. h < 65536" by simp
  have val: "horner 0 ?hs = x" using assms by (rule horner_hextets)
  from compress_hextets_cases [of ?H] show ?thesis
  proof
    assume "compress_hextets ?H = ?H"
    then show ?thesis unfolding s using v6_parse_plain [OF len lt] val by simp
  next
    assume "\<exists>b n. 2 \<le> n \<and> zero_run ?H b n \<and> compress_hextets ?H =
        (if b = 0 then [[]] else take b ?H) @ [[]] @
        (if b + n = length ?H then [[]] else drop (b + n) ?H)"
    then obtain b n where n: "2 \<le> n" and zr: "zero_run ?H b n"
      and c: "compress_hextets ?H = (if b = 0 then [[]] else take b ?H) @ [[]] @
        (if b + n = length ?H then [[]] else drop (b + n) ?H)" by blast
    from zr have le: "b + n \<le> 8" by (simp add: zero_run_def)
    have z: "\<forall>i. b \<le> i \<and> i < b + n \<longrightarrow> ?hs ! i = 0"
    proof (intro allI impI)
      fix i assume i: "b \<le> i \<and> i < b + n"
      with le have i8: "i < 8" by simp
      from zr i have "?H ! i = ''0''" unfolding zero_run_def by blast
      moreover from i8 have "i < length ?hs" by (simp only: len)
      then have "?H ! i = hex (?hs ! i)" by (rule nth_map)
      ultimately have "hex (?hs ! i) = ''0''" by (simp only:)
      then show "?hs ! i = 0" by (simp only: hex_eq_0)
    qed
    have l8: "length ?H = 8" by simp
    show ?thesis
      unfolding s c l8 using v6_parse_compressed [OF len lt n le z] val by (simp only:)
  qed
qed

lemma compress_hextets_set: "p \<in> set (compress_hextets H) \<Longrightarrow> p = [] \<or> p \<in> set H"
  using compress_hextets_cases [of H]
  by (auto split: if_splits dest: in_set_takeD in_set_dropD)

lemma compress_hextets_ne: "H \<noteq> [] \<Longrightarrow> compress_hextets H \<noteq> []"
  using compress_hextets_cases [of H] by auto

lemma v6_string_chars:
  "c \<in> set (v6_string_from_ip_int x) \<Longrightarrow> c \<in> lower_hex \<or> c = CHR '':''"
proof -
  let ?H = "map (\<lambda>k. hex (int_of_str 16 (take 4 (drop k (hex_padded 32 x)))))
      [0, 4, 8, 12, 16, 20, 24, 28]"
  assume "c \<in> set (v6_string_from_ip_int x)"
  then have "c \<in> set (str_join '':'' (compress_hextets ?H))"
    by (simp add: v6_string_from_ip_int_def Let_def)
  then have "c \<in> set '':'' \<union> \<Union> (set ` set (compress_hextets ?H))"
    using str_join_set by blast
  then consider "c = CHR '':''" | p where "p \<in> set (compress_hextets ?H)" "c \<in> set p" by auto
  then show ?thesis
  proof cases
    case 1
    then show ?thesis by simp
  next
    case 2
    then have "p \<in> set ?H" using compress_hextets_set by fastforce
    then obtain h where "p = hex h" by auto
    with 2(2) show ?thesis by (auto dest: hex_chars)
  qed
qed

lemma v6_string_ne: "x < 2 ^ 128 \<Longrightarrow> v6_string_from_ip_int x \<noteq> []"
proof
  assume "x < 2 ^ 128" and "v6_string_from_ip_int x = []"
  then have "v6_ip_int_from_string [] = Some x" using v6_ip_int_from_string_format by metis
  then show False by (simp add: v6_ip_int_from_string_def)
qed

lemma v6_string_strip: "x < 2 ^ 128 \<Longrightarrow> \<not> isspace (hd (v6_string_from_ip_int x))"
proof -
  assume "x < 2 ^ 128"
  then have "v6_string_from_ip_int x \<noteq> []" by (rule v6_string_ne)
  then have "hd (v6_string_from_ip_int x) \<in> set (v6_string_from_ip_int x)" by simp
  then have "hd (v6_string_from_ip_int x) \<in> lower_hex \<or> hd (v6_string_from_ip_int x) = CHR '':''"
    by (rule v6_string_chars)
  then show ?thesis by (auto dest: lower_hex_not_special simp: isspace_def)
qed

lemma v6_counts_sum: "v6_counts parts = Some (hi, lo, sk) \<Longrightarrow> hi + lo + sk \<le> 8"
  unfolding v6_counts_def Let_def
  by (auto split: option.splits if_splits)

lemma v6_ip_int_from_string_less:
  assumes "v6_ip_int_from_string s = Some x"
  shows "x < 2 ^ 128"
proof -
  from assms obtain parts hi lo sk ip where c: "v6_counts parts = Some (hi, lo, sk)"
    and h1: "hextets_loop (take hi parts) 0 = Some ip"
    and h2: "hextets_loop (drop (length parts - lo) parts) (push_bit (16 * sk) ip) = Some x"
    unfolding v6_ip_int_from_string_def Let_def
    by (auto split: if_splits option.splits)
  from c have sum: "hi + lo + sk \<le> 8" by (rule v6_counts_sum)
  from h1 obtain hs1 where hs1: "length hs1 = length (take hi parts)" "\<forall>h\<in>set hs1. h < 65536"
    "ip = horner 0 hs1" by (blast dest: hextets_loop_Some)
  from h2 obtain hs2 where hs2: "length hs2 = length (drop (length parts - lo) parts)"
    "\<forall>h\<in>set hs2. h < 65536" "x = horner (push_bit (16 * sk) ip) hs2"
    by (blast dest: hextets_loop_Some)
  have x: "x = horner 0 (hs1 @ replicate sk 0 @ hs2)"
    by (simp add: hs2(3) hs1(3) push_bit_horner)
  have "\<forall>h\<in>set (hs1 @ replicate sk 0 @ hs2). h < 65536" using hs1(2) hs2(2) by auto
  then have "horner 0 (hs1 @ replicate sk 0 @ hs2) < 65536 ^ (0 + length (hs1 @ replicate sk 0 @ hs2))"
    by (intro horner_less) simp_all
  also have "length (hs1 @ replicate sk 0 @ hs2) \<le> 8" using sum hs1(1) hs2(1) by simp
  then have "(65536::nat) ^ (0 + length (hs1 @ replicate sk 0 @ hs2)) \<le> 65536 ^ 8"
    by (intro power_increasing) simp_all
  finally show ?thesis by (simp add: x)
qed

lemma ALL_ONES_mask: "ALL_ONES bits = mask bits"
  by (simp add: ALL_ONES_def mask_eq_exp_minus_1)

lemma drop_bit_mask_nat: "drop_bit k (mask n :: nat) = mask (n - k)"
  by (rule bit_eqI) (auto simp: bit_simps)

lemma and_netmask:
  assumes "x < 2 ^ bits" "k \<le> bits"
  shows "x AND ip_int_from_prefix bits k = push_bit (bits - k) (drop_bit (bits - k) x)"
proof -
  from assms(1) have x: "take_bit bits x = x" by (simp add: take_bit_nat_eq_self)
  have "take_bit bits x AND (mask bits XOR mask (bits - k))
      = push_bit (bits - k) (drop_bit (bits - k) (take_bit bits x))"
    using assms(2) by (intro bit_eqI) (auto simp: bit_simps)
  then show ?thesis by (simp add: x ip_int_from_prefix_def ALL_ONES_mask drop_bit_mask_nat)
qed

lemma and_netmask_div:
  "x < 2 ^ bits \<Longrightarrow> k \<le> bits \<Longrightarrow>
   x AND ip_int_from_prefix bits k = x div 2 ^ (bits - k) * 2 ^ (bits - k)"
  by (simp add: and_netmask push_bit_eq_mult drop_bit_eq_div)

lemma and_netmask_idem:
  "(x AND ip_int_from_prefix bits k) AND ip_int_from_prefix bits k = x AND ip_int_from_prefix bits k"
  by (simp add: and.assoc)

lemma and_netmask_full: "x < 2 ^ bits \<Longrightarrow> x AND ip_int_from_prefix bits bits = x"
  by (simp add: and_netmask)

lemma and_netmask_less: "(x::nat) < 2 ^ bits \<Longrightarrow> x AND m < 2 ^ bits"
  using and_nat_le [of x m] by simp

lemma str_nat_no_special:
  "CHR ''/'' \<notin> set (str_nat k)" "CHR ''.'' \<notin> set (str_nat k)" "CHR '':'' \<notin> set (str_nat k)"
  using str_nat_chars isdigit_not_special by blast+

lemma prefix_from_prefix_string_str_nat:
  assumes "k \<le> bits" "bits \<le> 128"
  shows "prefix_from_prefix_string bits (str_nat k) = Some k"
proof -
  from assms have "k < 10 ^ 3" by simp
  then have "length (str_nat k) \<le> 3" by (rule str_nat_length) simp
  then have "\<not> length (str_nat k) > int_max_str_digits" by (simp add: int_max_str_digits_def)
  with assms(1) show ?thesis
    by (simp add: prefix_from_prefix_string_def str_isdigit_def str_nat_digits)
qed

lemma prefix_from_prefix_string_Some:
  "prefix_from_prefix_string bits s = Some k \<Longrightarrow> k \<le> bits \<and> s \<noteq> [] \<and> list_all isdigit s"
  by (auto simp: prefix_from_prefix_string_def str_isdigit_def Let_def split: if_splits)

lemma prefix_from_ip_int_le: "prefix_from_ip_int bits m = Some k \<Longrightarrow> k \<le> bits"
  by (auto simp: prefix_from_ip_int_def Let_def split: if_splits)

lemma prefix_from_ip_string_le: "prefix_from_ip_string s = Some k \<Longrightarrow> k \<le> 32"
  by (auto simp: prefix_from_ip_string_def split: option.splits dest: prefix_from_ip_int_le)

lemma v4_make_netmask_Some:
  "v4_make_netmask m = Some (nm, k) \<Longrightarrow> k \<le> 32 \<and> nm = ip_int_from_prefix 32 k"
  by (auto simp: v4_make_netmask_def split: option.splits
      dest: prefix_from_prefix_string_Some prefix_from_ip_string_le)

lemma v6_make_netmask_Some:
  "v6_make_netmask m = Some (nm, k) \<Longrightarrow> k \<le> 128 \<and> nm = ip_int_from_prefix 128 k"
  by (auto simp: v6_make_netmask_def split: option.splits
      dest: prefix_from_prefix_string_Some)

lemma v4_make_netmask_prefix:
  "prefix_from_prefix_string 32 p = Some k \<Longrightarrow>
   v4_make_netmask (Some p) = Some (ip_int_from_prefix 32 k, k)"
  by (simp add: v4_make_netmask_def)

lemma v6_make_netmask_prefix:
  "prefix_from_prefix_string 128 p = Some k \<Longrightarrow>
   v6_make_netmask (Some p) = Some (ip_int_from_prefix 128 k, k)"
  by (simp add: v6_make_netmask_def)

lemma split_addr_prefix_slash:
  "CHR ''/'' \<notin> set a \<Longrightarrow> CHR ''/'' \<notin> set p \<Longrightarrow>
   split_addr_prefix (a @ ''/'' @ p) = Some (a, Some p)"
  by (simp add: split_addr_prefix_def str_split_append str_split_no_sep)

lemma str_partition_none: "sep \<notin> set s \<Longrightarrow> str_partition sep s = (s, [], [])"
  by (induction s) (auto simp: str_partition_def)

lemma takeWhile_not_sep: "sep \<notin> set t \<Longrightarrow> takeWhile (\<lambda>c. c \<noteq> sep) (t @ sep # r) = t"
  by (induction t) auto

lemma dropWhile_not_sep: "sep \<notin> set t \<Longrightarrow> dropWhile (\<lambda>c. c \<noteq> sep) (t @ sep # r) = sep # r"
  by (induction t) auto

lemma str_partition_sep:
  "sep \<notin> set t \<Longrightarrow> str_partition sep (t @ sep # r) = (t, [sep], r)"
  by (simp add: str_partition_def takeWhile_not_sep dropWhile_not_sep)

lemma str_partition_cases:
  "str_partition sep s = (a, b, c) \<Longrightarrow>
   (b = [] \<and> a = s \<and> sep \<notin> set s) \<or> (b = [sep] \<and> s = a @ sep # c \<and> sep \<notin> set a)"
proof (cases "sep \<in> set s")
  case False
  assume "str_partition sep s = (a, b, c)"
  with False show ?thesis by (simp add: str_partition_none)
next
  case True
  assume p: "str_partition sep s = (a, b, c)"
  from True obtain t r where s: "s = t @ sep # r" and t: "sep \<notin> set t"
    by (auto dest: split_list_first)
  from p t show ?thesis unfolding s by (simp add: str_partition_sep)
qed

lemma split_scope_id_Some:
  "split_scope_id a = Some (addr, sc) \<Longrightarrow>
   (sc = None \<and> addr = a \<and> CHR ''%'' \<notin> set a) \<or>
   (\<exists>s. sc = Some s \<and> s \<noteq> [] \<and> CHR ''%'' \<notin> set s \<and> a = addr @ CHR ''%'' # s
        \<and> CHR ''%'' \<notin> set addr)"
proof -
  assume s: "split_scope_id a = Some (addr, sc)"
  obtain x y z where p: "str_partition (CHR ''%'') a = (x, y, z)"
    by (cases "str_partition (CHR ''%'') a") auto
  from str_partition_cases [OF p]
  show ?thesis
  proof
    assume "y = [] \<and> x = a \<and> CHR ''%'' \<notin> set a"
    with s p show ?thesis by (simp add: split_scope_id_def)
  next
    assume c: "y = [CHR ''%''] \<and> a = x @ CHR ''%'' # z \<and> CHR ''%'' \<notin> set x"
    with s p have "z \<noteq> []" "CHR ''%'' \<notin> set z" "addr = x" "sc = Some z"
      by (simp_all add: split_scope_id_def split: if_splits)
    with c show ?thesis by simp
  qed
qed

lemma v6_string_has_colon: "x < 2 ^ 128 \<Longrightarrow> CHR '':'' \<in> set (v6_string_from_ip_int x)"
proof (rule ccontr)
  assume x: "x < 2 ^ 128" and n: "CHR '':'' \<notin> set (v6_string_from_ip_int x)"
  from n have "str_split (CHR '':'') (v6_string_from_ip_int x) = [v6_string_from_ip_int x]"
    by (rule str_split_no_sep)
  then have "v6_ip_int_from_string (v6_string_from_ip_int x) = None"
    by (simp add: v6_ip_int_from_string_def)
  with x show False by (simp add: v6_ip_int_from_string_format)
qed

lemma v6_string_no_slash: "CHR ''/'' \<notin> set (v6_string_from_ip_int x)"
proof
  assume "CHR ''/'' \<in> set (v6_string_from_ip_int x)"
  then have "CHR ''/'' \<in> lower_hex \<or> CHR ''/'' = CHR '':''" by (rule v6_string_chars)
  then show False by (simp add: lower_hex_def)
qed

lemma v6_string_no_percent: "CHR ''%'' \<notin> set (v6_string_from_ip_int x)"
proof
  assume "CHR ''%'' \<in> set (v6_string_from_ip_int x)"
  then have "CHR ''%'' \<in> lower_hex \<or> CHR ''%'' = CHR '':''" by (rule v6_string_chars)
  then show False by (simp add: lower_hex_def)
qed

lemma IPv6Address_format:
  "x < 2 ^ 128 \<Longrightarrow> IPv6Address (v6_string_from_ip_int x) = Some (x, None)"
  by (simp add: IPv6Address_def split_scope_id_def v6_string_no_slash v6_string_no_percent
      str_partition_none v6_ip_int_from_string_format)

lemma IPv6Address_format_scope:
  "x < 2 ^ 128 \<Longrightarrow> s \<noteq> [] \<Longrightarrow> CHR ''%'' \<notin> set s \<Longrightarrow> CHR ''/'' \<notin> set s \<Longrightarrow>
   IPv6Address (v6_string_from_ip_int x @ CHR ''%'' # s) = Some (x, Some s)"
  by (simp add: IPv6Address_def split_scope_id_def v6_string_no_slash v6_string_no_percent
      str_partition_sep v6_ip_int_from_string_format)

lemma IPv4Address_no_special:
  assumes "IPv4Address a = Some x"
  shows "CHR ''%'' \<notin> set a" "CHR '':'' \<notin> set a" "CHR ''/'' \<notin> set a"
proof -
  have c: "c \<in> set a \<Longrightarrow> c \<noteq> CHR '':'' \<and> c \<noteq> CHR ''.'' \<and> c \<noteq> CHR ''/'' \<and> c \<noteq> CHR ''%''
      \<or> c = CHR ''.''" for c
    using IPv4Address_chars [OF assms, of c] isdigit_not_special [of c] by blast
  show "CHR ''%'' \<notin> set a" using c [of "CHR ''%''"] by auto
  show "CHR '':'' \<notin> set a" using c [of "CHR '':''"] by auto
  show "CHR ''/'' \<notin> set a" using c [of "CHR ''/''"] by auto
qed

lemma IPv4_not_IPv6: "IPv4Address a = Some x \<Longrightarrow> IPv6Address a = None"
proof -
  assume v: "IPv4Address a = Some x"
  have "split_scope_id a = Some (a, None)"
    using IPv4Address_no_special(1) [OF v] by (simp add: split_scope_id_def str_partition_none)
  moreover have "str_split (CHR '':'') a = [a]"
    using IPv4Address_no_special(2) [OF v] by (rule str_split_no_sep)
  ultimately show ?thesis by (simp add: IPv6Address_def v6_ip_int_from_string_def)
qed

lemma IPv6_not_IPv4: "IPv6Address a = Some r \<Longrightarrow> IPv4Address a = None"
  using IPv4_not_IPv6 [of a] by (cases "IPv4Address a") auto

lemma str_split_hd:
  "s \<noteq> [] \<Longrightarrow> hd s \<noteq> sep \<Longrightarrow>
   hd (str_split sep s) \<noteq> [] \<and> hd (hd (str_split sep s)) = hd s"
  by (cases s) simp_all

lemma skip_index_loop_mem:
  "skip_index_loop parts js acc = Some (Some k) \<Longrightarrow> acc = Some k \<or> k \<in> set js"
  by (induction js arbitrary: acc) (auto split: if_splits)

lemma v6_counts_hi:
  assumes "v6_counts parts = Some (hi, lo, sk)" "hd parts \<noteq> []"
  shows "1 \<le> hi"
proof (cases "skip_index_loop parts [1 ..< length parts - 1] None")
  case None
  with assms(1) show ?thesis by (simp add: v6_counts_def)
next
  case (Some r)
  show ?thesis
  proof (cases r)
    case None
    with Some assms show ?thesis by (auto simp: v6_counts_def split: if_splits)
  next
    case (Some k)
    with \<open>skip_index_loop parts [1 ..< length parts - 1] None = Some r\<close>
    have "k \<in> set [1 ..< length parts - 1]" by (auto dest: skip_index_loop_mem)
    then have k: "1 \<le> k" by simp
    from Some \<open>skip_index_loop parts [1 ..< length parts - 1] None = Some r\<close> assms
    have "hi = k" by (auto simp: v6_counts_def Let_def split: if_splits)
    with k show ?thesis by simp
  qed
qed

lemma v6_parts_hd:
  "v6_parts parts = Some parts' \<Longrightarrow> 3 \<le> length parts \<Longrightarrow> hd parts' = hd parts \<and> parts' \<noteq> []"
proof -
  assume v: "v6_parts parts = Some parts'" and l: "3 \<le> length parts"
  from l obtain p q ps where p: "parts = p # q # ps" by (cases parts; cases "tl parts") auto
  from v show ?thesis unfolding p
    by (auto simp: v6_parts_def split: if_splits option.splits)
qed

lemma hex_digit_not_space: "c \<in> set ''0123456789ABCDEFabcdef'' \<Longrightarrow> \<not> isspace c"
  by (simp; (elim disjE; simp add: isspace_def))

lemma hextets_loop_hd:
  "hextets_loop (p # ps) acc = Some r \<Longrightarrow> set p \<subseteq> set ''0123456789ABCDEFabcdef'' \<and> p \<noteq> []"
  by (auto simp: parse_hextet_def split: option.splits if_splits)

lemma v6_ip_int_from_string_hd:
  assumes "v6_ip_int_from_string s = Some x"
  shows "s \<noteq> [] \<and> \<not> isspace (hd s)"
proof -
  from assms have ne: "s \<noteq> []" by (auto simp: v6_ip_int_from_string_def)
  have "\<not> isspace (hd s)"
  proof (cases "hd s = CHR '':''")
    case True
    then show ?thesis by (simp add: isspace_def)
  next
    case False
    let ?parts = "str_split (CHR '':'') s"
    from ne False have h: "hd ?parts \<noteq> []" "hd (hd ?parts) = hd s"
      by (simp_all add: str_split_hd)
    from assms obtain parts' hi lo sk ip where l: "3 \<le> length ?parts"
      and v: "v6_parts ?parts = Some parts'" and c: "v6_counts parts' = Some (hi, lo, sk)"
      and h1: "hextets_loop (take hi parts') 0 = Some ip"
      unfolding v6_ip_int_from_string_def Let_def
      by (auto split: if_splits option.splits)
    from v6_parts_hd [OF v l] have hp: "hd parts' = hd ?parts" "parts' \<noteq> []" by simp_all
    with h have "hd parts' \<noteq> []" by simp
    with c have "1 \<le> hi" by (rule v6_counts_hi)
    then obtain j where "hi = Suc j" by (cases hi) simp_all
    moreover from hp(2) obtain p ps where "parts' = p # ps" by (cases parts') simp_all
    ultimately have "take hi parts' = hd parts' # take j ps" by simp
    with h1 have "hextets_loop (hd parts' # take j ps) 0 = Some ip" by (simp only:)
    then have "set (hd parts') \<subseteq> set ''0123456789ABCDEFabcdef''"
      by (rule hextets_loop_hd [THEN conjunct1])
    moreover from h hp have "hd s \<in> set (hd parts')" by (metis hd_in_set)
    ultimately have "hd s \<in> set ''0123456789ABCDEFabcdef''" by blast
    then show ?thesis by (rule hex_digit_not_space)
  qed
  with ne show ?thesis by simp
qed

lemma IPv6Address_Some:
  assumes "IPv6Address a = Some (x, sc)"
  shows "x < 2 ^ 128" "scope_ok sc" "CHR ''/'' \<notin> set a" "a \<noteq> []" "\<not> isspace (hd a)"
proof -
  from assms show sl: "CHR ''/'' \<notin> set a" by (auto simp: IPv6Address_def split: if_splits)
  from assms sl obtain addr where sp: "split_scope_id a = Some (addr, sc)"
    and v: "v6_ip_int_from_string addr = Some x"
    by (auto simp: IPv6Address_def split: option.splits)
  from v show "x < 2 ^ 128" by (rule v6_ip_int_from_string_less)
  from v have h: "addr \<noteq> []" "\<not> isspace (hd addr)" by (simp_all add: v6_ip_int_from_string_hd)
  from split_scope_id_Some [OF sp]
  have "scope_ok sc \<and> a \<noteq> [] \<and> hd a = hd addr"
  proof
    assume "sc = None \<and> addr = a \<and> CHR ''%'' \<notin> set a"
    with h show ?thesis by simp
  next
    assume "\<exists>s. sc = Some s \<and> s \<noteq> [] \<and> CHR ''%'' \<notin> set s \<and> a = addr @ CHR ''%'' # s
        \<and> CHR ''%'' \<notin> set addr"
    then obtain s where s: "sc = Some s" "s \<noteq> []" "CHR ''%'' \<notin> set s" "a = addr @ CHR ''%'' # s"
      by blast
    from sl s(4) have "CHR ''/'' \<notin> set s" by simp
    with s h show ?thesis by simp
  qed
  with h show "scope_ok sc" "a \<noteq> []" "\<not> isspace (hd a)" by simp_all
qed

lemma IPv4Address_hd: "IPv4Address a = Some x \<Longrightarrow> a \<noteq> [] \<and> \<not> isspace (hd a)"
proof -
  assume v: "IPv4Address a = Some x"
  then have a: "a = v4_string_from_ip_int x" by (simp add: IPv4Address_Some)
  have "isdigit (hd a)" unfolding a by (rule v4_string_hd)
  then have "\<not> isspace (hd a)" by (simp add: isdigit_not_special)
  moreover have "a \<noteq> []" unfolding a by (rule v4_string_ne)
  ultimately show ?thesis by simp
qed

lemma ip_address_Some:
  assumes "ip_address a = Some ip"
  shows "address_ok ip" "CHR ''/'' \<notin> set a" "a \<noteq> []" "\<not> isspace (hd a)"
proof -
  have "address_ok ip \<and> CHR ''/'' \<notin> set a \<and> a \<noteq> [] \<and> \<not> isspace (hd a)"
  proof (cases "IPv4Address a")
    case (Some x)
    with assms have "ip = V4 x" by (simp add: ip_address_def)
    with Some show ?thesis
      using IPv4Address_Some [OF Some] IPv4Address_hd [OF Some] IPv4Address_no_special(3) [OF Some]
      by simp
  next
    case None
    with assms obtain x sc where v: "IPv6Address a = Some (x, sc)" and ip: "ip = V6 x sc"
      by (auto simp: ip_address_def split: option.splits)
    from IPv6Address_Some [OF v] ip show ?thesis by simp
  qed
  then show "address_ok ip" "CHR ''/'' \<notin> set a" "a \<noteq> []" "\<not> isspace (hd a)" by simp_all
qed

lemma ip_address_str_address: "address_ok ip \<Longrightarrow> ip_address (str_address ip) = Some ip"
proof (cases ip)
  case (V4 x)
  assume "address_ok ip"
  with V4 show ?thesis by (simp add: ip_address_def IPv4Address_format)
next
  case (V6 x sc)
  assume ok: "address_ok ip"
  show ?thesis
  proof (cases sc)
    case None
    with ok V6 have v: "IPv6Address (v6_string_from_ip_int x) = Some (x, None)"
      by (simp add: IPv6Address_format)
    from IPv6_not_IPv4 [OF v] v None V6 show ?thesis by (simp add: ip_address_def)
  next
    case (Some s)
    with ok V6 have v: "IPv6Address (v6_string_from_ip_int x @ CHR ''%'' # s) = Some (x, Some s)"
      by (simp add: IPv6Address_format_scope)
    from IPv6_not_IPv4 [OF v] v Some V6 ok show ?thesis by (simp add: ip_address_def)
  qed
qed

lemma prefix_string_chars:
  assumes "prefix_from_prefix_string bits p = Some k"
  shows "CHR ''/'' \<notin> set p" "p \<noteq> []" "\<not> isspace (last p)"
proof -
  from assms have ne: "p \<noteq> []" and d: "list_all isdigit p"
    by (simp_all add: prefix_from_prefix_string_Some)
  from d have c: "\<And>c. c \<in> set p \<Longrightarrow> isdigit c" by (simp add: list_all_iff)
  show "p \<noteq> []" by (rule ne)
  show "CHR ''/'' \<notin> set p" using c isdigit_not_special by blast
  from ne have "last p \<in> set p" by simp
  then show "\<not> isspace (last p)" using c isdigit_not_special by blast
qed

lemma ip_network_v4:
  assumes "IPv4Address n = Some x" "prefix_from_prefix_string 32 p = Some k"
  shows "ip_network (n @ ''/'' @ p) =
     Some \<lparr>network_address = V4 (x AND ip_int_from_prefix 32 k), prefixlen = k\<rparr>"
proof -
  have sp: "split_addr_prefix (n @ ''/'' @ p) = Some (n, Some p)"
    using IPv4Address_no_special(3) [OF assms(1)] prefix_string_chars(1) [OF assms(2)]
    by (rule split_addr_prefix_slash)
  have "IPv4Network (n @ ''/'' @ p) =
     Some \<lparr>network_address = V4 (x AND ip_int_from_prefix 32 k), prefixlen = k\<rparr>"
    unfolding IPv4Network_def sp
    by (simp add: assms(1) v4_make_netmask_prefix [OF assms(2)])
  then show ?thesis by (simp add: ip_network_def)
qed

lemma ip_network_v6:
  assumes "IPv6Address n = Some (x, sc)" "prefix_from_prefix_string 128 p = Some k"
  shows "ip_network (n @ ''/'' @ p) =
     Some \<lparr>network_address =
             V6 (x AND ip_int_from_prefix 128 k)
                (if x AND ip_int_from_prefix 128 k \<noteq> x then None else sc),
           prefixlen = k\<rparr>"
proof -
  have sp: "split_addr_prefix (n @ ''/'' @ p) = Some (n, Some p)"
    using IPv6Address_Some(3) [OF assms(1)] prefix_string_chars(1) [OF assms(2)]
    by (rule split_addr_prefix_slash)
  have v4: "IPv4Network (n @ ''/'' @ p) = None"
    unfolding IPv4Network_def sp by (simp add: IPv6_not_IPv4 [OF assms(1)])
  have "IPv6Network (n @ ''/'' @ p) =
     Some \<lparr>network_address =
             V6 (x AND ip_int_from_prefix 128 k)
                (if x AND ip_int_from_prefix 128 k \<noteq> x then None else sc),
           prefixlen = k\<rparr>"
    unfolding IPv6Network_def sp
    by (simp add: assms(1) v6_make_netmask_prefix [OF assms(2)])
  with v4 show ?thesis by (simp add: ip_network_def)
qed

lemma strip_network_text:
  assumes "n \<noteq> []" "\<not> isspace (hd n)" "p \<noteq> []" "\<not> isspace (last p)"
  shows "strip (n @ ''/'' @ p) = n @ ''/'' @ p"
  using assms by (intro strip_id) simp_all

lemma normalize_network:
  assumes "ip_address n = Some a" "prefix_from_prefix_string (max_prefixlen a) p = Some k"
  shows "normalize_ip_or_cidr (n @ ''/'' @ p) =
     Inr (str_address (zero_host_bits a k) @ ''/'' @ str_nat k)"
proof -
  let ?v = "n @ ''/'' @ p"
  have st: "strip ?v = ?v"
    using ip_address_Some(3,4) [OF assms(1)] prefix_string_chars(2,3) [OF assms(2)]
    by (rule strip_network_text)
  have k: "k \<le> max_prefixlen a" using assms(2) by (simp add: prefix_from_prefix_string_Some)
  have ok: "address_ok a" using assms(1) by (rule ip_address_Some)
  have net: "ip_network ?v = Some \<lparr>network_address = zero_host_bits a k, prefixlen = k\<rparr>"
  proof (cases a)
    case (V4 x)
    with assms(1) have v: "IPv4Address n = Some x"
      by (auto simp: ip_address_def split: option.splits)
    from V4 ok k have "x AND ip_int_from_prefix 32 k = x div 2 ^ (32 - k) * 2 ^ (32 - k)"
      by (simp add: and_netmask_div)
    with ip_network_v4 [OF v] assms(2) V4 show ?thesis by simp
  next
    case (V6 x sc)
    with assms(1) have v: "IPv6Address n = Some (x, sc)"
      by (auto simp: ip_address_def split: option.splits)
    from V6 ok k have "x AND ip_int_from_prefix 128 k = x div 2 ^ (128 - k) * 2 ^ (128 - k)"
      by (simp add: and_netmask_div)
    with ip_network_v6 [OF v] assms(2) V6 show ?thesis by simp
  qed
  from net have net': "ip_network (n @ CHR ''/'' # p)
      = Some \<lparr>network_address = zero_host_bits a k, prefixlen = k\<rparr>" by simp
  show ?thesis
    unfolding normalize_ip_or_cidr_def st Let_def by (simp add: net')
qed

lemma normalize_bare:
  assumes "ip_address a = Some ip" "\<not> isspace (last a)"
  shows "normalize_ip_or_cidr a = Inr (str_address ip @ ''/'' @ str_nat (max_prefixlen ip))"
proof -
  have st: "strip a = a"
    using ip_address_Some(3,4) [OF assms(1)] assms(2) by (rule strip_id)
  have "(if version ip = 4 then 32 else 128) = max_prefixlen ip" by (cases ip) simp_all
  then show ?thesis
    unfolding normalize_ip_or_cidr_def st Let_def
    using ip_address_Some(2,3) [OF assms(1)] assms(1) by simp
qed

lemma str_nat_32: "str_nat 32 = ''32''"
  by (simp add: str_nat.simps digit_char_def)

lemma str_nat_128: "str_nat 128 = ''128''"
  by (simp add: str_nat.simps digit_char_def)

lemma ip_address_v4_text:
  assumes "ip_address a = Some ip" "version ip = 4"
  shows "str_address ip = a" "\<not> isspace (last a)"
proof -
  from assms obtain x where ip: "ip = V4 x" by (cases ip) simp_all
  with assms(1) have v: "IPv4Address a = Some x"
    by (auto simp: ip_address_def split: option.splits)
  from IPv4Address_Some [OF v] ip show "str_address ip = a" by simp
  from IPv4Address_strip [OF v] have "strip a = a" .
  moreover from v have "a \<noteq> []" by (simp add: IPv4Address_hd)
  ultimately show "\<not> isspace (last a)" using strip_last [of a] by simp
qed

lemma zero_host_bits_full: "zero_host_bits a (max_prefixlen a) = a"
  by (cases a) simp_all

lemma zero_host_bits_masked_v4:
  assumes "x < 2 ^ 32" "k \<le> 32"
  shows "zero_host_bits (V4 (x AND ip_int_from_prefix 32 k)) k = V4 (x AND ip_int_from_prefix 32 k)"
proof -
  let ?y = "x AND ip_int_from_prefix 32 k"
  from assms(1) have "?y < 2 ^ 32" by (rule and_netmask_less)
  then have "?y AND ip_int_from_prefix 32 k = ?y div 2 ^ (32 - k) * 2 ^ (32 - k)"
    using assms(2) by (rule and_netmask_div)
  then show ?thesis by (simp add: and_netmask_idem)
qed

lemma zero_host_bits_masked_v6:
  assumes "x < 2 ^ 128" "k \<le> 128"
  shows "zero_host_bits (V6 (x AND ip_int_from_prefix 128 k) sc) k
     = V6 (x AND ip_int_from_prefix 128 k) sc"
proof -
  let ?y = "x AND ip_int_from_prefix 128 k"
  from assms(1) have "?y < 2 ^ 128" by (rule and_netmask_less)
  then have "?y AND ip_int_from_prefix 128 k = ?y div 2 ^ (128 - k) * 2 ^ (128 - k)"
    using assms(2) by (rule and_netmask_div)
  then show ?thesis by (simp add: and_netmask_idem)
qed

lemma ip_network_Some:
  assumes "ip_network v = Some net"
  shows "address_ok (network_address net) \<and> prefixlen net \<le> max_prefixlen (network_address net)
     \<and> zero_host_bits (network_address net) (prefixlen net) = network_address net"
proof (cases "IPv4Network v")
  case (Some n4)
  with assms have n4: "net = n4" by (simp add: ip_network_def)
  from Some obtain addr m x nm k where x: "IPv4Address addr = Some x"
    and nm: "v4_make_netmask m = Some (nm, k)"
    and net4: "n4 = \<lparr>network_address = V4 (x AND nm), prefixlen = k\<rparr>"
    by (auto simp: IPv4Network_def split: option.splits if_splits)
  from IPv4Address_Some [OF x] have lt: "x < 2 ^ 32" by (rule conjunct2)
  from nm have k: "k \<le> 32" and e: "nm = ip_int_from_prefix 32 k"
    by (simp_all add: v4_make_netmask_Some)
  from lt have "x AND nm < 2 ^ 32" by (rule and_netmask_less)
  with zero_host_bits_masked_v4 [OF lt k] k show ?thesis by (simp add: n4 net4 e)
next
  case None
  with assms have "IPv6Network v = Some net" by (simp add: ip_network_def)
  then obtain addr m x sc nm k where x: "IPv6Address addr = Some (x, sc)"
    and nm: "v6_make_netmask m = Some (nm, k)"
    and net6: "net = \<lparr>network_address =
        (if x AND nm \<noteq> x then V6 (x AND nm) None else V6 x sc), prefixlen = k\<rparr>"
    by (auto simp: IPv6Network_def split: option.splits)
  from IPv6Address_Some [OF x] have lt: "x < 2 ^ 128" and sc: "scope_ok sc" by simp_all
  from nm have k: "k \<le> 128" and e: "nm = ip_int_from_prefix 128 k"
    by (simp_all add: v6_make_netmask_Some)
  from lt have l2: "x AND nm < 2 ^ 128" by (rule and_netmask_less)
  show ?thesis
  proof (cases "x AND nm \<noteq> x")
    case True
    with zero_host_bits_masked_v6 [OF lt k, of None] l2 k show ?thesis
      by (simp add: net6 e)
  next
    case False
    then have "x AND ip_int_from_prefix 128 k = x" by (simp add: e)
    with zero_host_bits_masked_v6 [OF lt k, of sc] have "zero_host_bits (V6 x sc) k = V6 x sc"
      by simp
    with False lt sc k show ?thesis by (simp add: net6)
  qed
qed

lemma normalize_canonical_text:
  assumes "address_ok a" "k \<le> max_prefixlen a" "zero_host_bits a k = a"
  shows "normalize_ip_or_cidr (str_address a @ ''/'' @ str_nat k)
     = Inr (str_address a @ ''/'' @ str_nat k)"
proof -
  have ip: "ip_address (str_address a) = Some a" using assms(1) by (rule ip_address_str_address)
  have "max_prefixlen a \<le> 128" by (cases a) simp_all
  with assms(2) have p: "prefix_from_prefix_string (max_prefixlen a) (str_nat k) = Some k"
    by (rule prefix_from_prefix_string_str_nat)
  from normalize_network [OF ip p] show ?thesis by (simp only: assms(3))
qed

lemma normalize_result_canonical:
  assumes "normalize_ip_or_cidr v = Inr r"
  shows "\<exists>a k. address_ok a \<and> k \<le> max_prefixlen a \<and> zero_host_bits a k = a
     \<and> r = str_address a @ ''/'' @ str_nat k"
proof (cases "CHR ''/'' \<in> set (strip v)")
  case True
  with assms obtain net where n: "ip_network (strip v) = Some net"
    and r: "r = str_address (network_address net) @ ''/'' @ str_nat (prefixlen net)"
    by (auto simp: normalize_ip_or_cidr_def Let_def split: if_splits option.splits)
  from ip_network_Some [OF n] r show ?thesis by blast
next
  case False
  with assms obtain ip where i: "ip_address (strip v) = Some ip"
    and r: "r = str_address ip @ ''/'' @ str_nat (if version ip = 4 then 32 else 128)"
    by (auto simp: normalize_ip_or_cidr_def Let_def split: if_splits option.splits)
  have "(if version ip = 4 then 32 else 128) = max_prefixlen ip" by (cases ip) simp_all
  with r have "r = str_address ip @ ''/'' @ str_nat (max_prefixlen ip)" by simp
  moreover have "address_ok ip" using i by (rule ip_address_Some)
  ultimately show ?thesis using zero_host_bits_full [of ip] by blast
qed

lemma normalize_idempotent_aux:
  "normalize_ip_or_cidr x = Inr y \<Longrightarrow> normalize_ip_or_cidr y = Inr y"
proof -
  assume "normalize_ip_or_cidr x = Inr y"
  then obtain a k where "address_ok a" "k \<le> max_prefixlen a" "zero_host_bits a k = a"
    and y: "y = str_address a @ ''/'' @ str_nat k"
    by (blast dest: normalize_result_canonical)
  then show ?thesis unfolding y by (intro normalize_canonical_text)
qed

lemmas v4_eval =
  ip_address_def IPv4Address_def v4_ip_int_from_string_def parse_octet_def str_isdigit_def
  isdigit_def int_of_str_def digit_value_def digit_table_def from_bytes_def

lemma ip_address_10_1_2_3: "ip_address ''10.1.2.3'' = Some (V4 167838211)"
  by (simp add: v4_eval)

lemma prefix_string_8: "prefix_from_prefix_string 32 ''8'' = Some 8"
  by (simp add: prefix_from_prefix_string_def str_isdigit_def isdigit_def int_of_str_def
      digit_value_def digit_table_def int_max_str_digits_def)

lemma network_text_10_8: "str_address (zero_host_bits (V4 167838211) 8) @ ''/'' @ str_nat 8 = ''10.0.0.0/8''"
  by (simp add: v4_string_from_ip_int_def str_nat.simps digit_char_def)

lemma ip_address_all_groups: "ip_address ''0:0:0:0:0:0:0:1'' = Some (V6 1 None)"
  by (simp add: v4_eval IPv6Address_def split_scope_id_def str_partition_def
      v6_ip_int_from_string_def v6_parts_def v6_counts_def parse_hextet_def Let_def)

lemma v6_text_of_one: "v6_string_from_ip_int 1 = ''::1''"
proof -
  have "v6_string_from_ip_int 1 =
      str_join '':'' (compress_hextets (map (\<lambda>i. hex (hextet_of 1 i)) [0 ..< 8]))"
    by (rule v6_string_hextets) simp
  also have "\<dots> = ''::1''"
    by (simp add: hextet_of_def hex.simps digit_char_def compress_hextets_def upt_conv_Cons)
  finally show ?thesis .
qed

lemma v6_text_of_one_Suc: "v6_string_from_ip_int (Suc 0) = ''::1''"
  using v6_text_of_one by simp

lemma IPv6Address_scope_text:
  "IPv6Address a = Some (x, Some s) \<Longrightarrow> \<exists>addr. a = addr @ CHR ''%'' # s"
proof -
  assume v: "IPv6Address a = Some (x, Some s)"
  then obtain addr where "split_scope_id a = Some (addr, Some s)"
    by (auto simp: IPv6Address_def split: if_splits option.splits)
  from split_scope_id_Some [OF this] show ?thesis by auto
qed

lemma str_address_last:
  assumes "ip_address a = Some ip" "\<not> isspace (last a)"
  shows "\<not> isspace (last (str_address ip))"
proof (cases ip)
  case (V4 x)
  with assms(1) have "version ip = 4" by simp
  with assms show ?thesis by (simp add: ip_address_v4_text)
next
  case (V6 x sc)
  from assms(1) V6 have ok: "x < 2 ^ 128" "scope_ok sc"
    using ip_address_Some(1) [OF assms(1)] by simp_all
  show ?thesis
  proof (cases sc)
    case None
    from ok(1) have ne: "v6_string_from_ip_int x \<noteq> []" by (rule v6_string_ne)
    then have "last (v6_string_from_ip_int x) \<in> set (v6_string_from_ip_int x)" by simp
    then have "last (v6_string_from_ip_int x) \<in> lower_hex
        \<or> last (v6_string_from_ip_int x) = CHR '':''" by (rule v6_string_chars)
    then have "\<not> isspace (last (v6_string_from_ip_int x))"
      by (auto dest: lower_hex_not_special simp: isspace_def)
    with V6 None show ?thesis by simp
  next
    case (Some s)
    from assms(1) V6 Some have "IPv6Address a = Some (x, Some s)"
      by (auto simp: ip_address_def split: option.splits)
    then obtain addr where a: "a = addr @ CHR ''%'' # s" by (blast dest: IPv6Address_scope_text)
    from ok(2) Some have s: "s \<noteq> []" by simp
    with a have "last a = last s" by simp
    with assms(2) s V6 Some show ?thesis by simp
  qed
qed

section \<open>Claims about the normalisation of addresses\<close>

text \<open>
  Claim C3: a valid IPv4 address without a mask comes back unchanged with \<open>/32\<close>
  appended.
\<close>

theorem normalize_ipv4_address:
  "ip_address a = Some ip \<Longrightarrow> version ip = 4 \<Longrightarrow>
   normalize_ip_or_cidr a = Inr (a @ ''/32'')"
proof -
  assume i: "ip_address a = Some ip" and v: "version ip = 4"
  from v have m: "max_prefixlen ip = 32" by (cases ip) simp_all
  from normalize_bare [OF i ip_address_v4_text(2) [OF i v]]
  show ?thesis by (simp add: ip_address_v4_text(1) [OF i v] m str_nat_32)
qed

theorem normalize_ipv4_address_witness:
  "ip_address ''10.1.2.3'' = Some (V4 167838211) \<and> version (V4 167838211) = 4
   \<and> normalize_ip_or_cidr ''10.1.2.3'' = Inr ''10.1.2.3/32''"
  using normalize_ipv4_address [OF ip_address_10_1_2_3] ip_address_10_1_2_3 by simp

text \<open>
  Claim C2, as the code has it. For a valid IPv6 address without a mask and without
  whitespace at its end, the result is the text that the library prints for the address,
  followed by \<open>/128\<close>: lower-case groups without leading zeros, the first longest run
  of two or more zero groups written as \<open>::\<close>, a scope id kept. So the result is the
  input with \<open>/128\<close> appended exactly when the input is already that text, and that
  text is itself a valid address that is returned with \<open>/128\<close> appended.
\<close>

theorem normalize_ipv6_address:
  "ip_address a = Some ip \<Longrightarrow> version ip = 6 \<Longrightarrow> \<not> isspace (last a) \<Longrightarrow>
   normalize_ip_or_cidr a = Inr (str_address ip @ ''/128'')
   \<and> (normalize_ip_or_cidr a = Inr (a @ ''/128'') \<longleftrightarrow> str_address ip = a)
   \<and> normalize_ip_or_cidr (str_address ip) = Inr (str_address ip @ ''/128'')"
proof -
  assume i: "ip_address a = Some ip" and v: "version ip = 6" and l: "\<not> isspace (last a)"
  from v have m: "max_prefixlen ip = 128" by (cases ip) simp_all
  from normalize_bare [OF i l]
  have n: "normalize_ip_or_cidr a = Inr (str_address ip @ ''/128'')" by (simp add: m str_nat_128)
  have ok: "address_ok ip" using i by (rule ip_address_Some)
  then have i': "ip_address (str_address ip) = Some ip" by (rule ip_address_str_address)
  from normalize_bare [OF i' str_address_last [OF i l]]
  have "normalize_ip_or_cidr (str_address ip) = Inr (str_address ip @ ''/128'')"
    by (simp add: m str_nat_128)
  with n show ?thesis by simp
qed

theorem normalize_ipv6_address_witness:
  "ip_address ''0:0:0:0:0:0:0:1'' = Some (V6 1 None) \<and> version (V6 1 None) = 6
   \<and> \<not> isspace (last ''0:0:0:0:0:0:0:1'')
   \<and> normalize_ip_or_cidr ''0:0:0:0:0:0:0:1'' = Inr ''::1/128''
   \<and> normalize_ip_or_cidr ''::1'' = Inr ''::1/128''"
proof -
  have l: "\<not> isspace (last ''0:0:0:0:0:0:0:1'')" by (simp add: isspace_def)
  from normalize_ipv6_address [OF ip_address_all_groups _ l] ip_address_all_groups l show ?thesis by (simp add: v6_text_of_one_Suc)
qed

text \<open>
  Claim C2 as stated fails: the loopback address written with all its groups is a valid
  IPv6 address without a mask, and the result is its compressed text with \<open>/128\<close>,
  which is not the input with \<open>/128\<close> appended.
\<close>

theorem normalize_ipv6_not_appended:
  "ip_address ''0:0:0:0:0:0:0:1'' = Some (V6 1 None)
   \<and> normalize_ip_or_cidr ''0:0:0:0:0:0:0:1'' = Inr ''::1/128''
   \<and> normalize_ip_or_cidr ''0:0:0:0:0:0:0:1'' \<noteq> Inr (''0:0:0:0:0:0:0:1'' @ ''/128'')"
proof -
  have l: "\<not> isspace (last ''0:0:0:0:0:0:0:1'')" by (simp add: isspace_def)
  from normalize_bare [OF ip_address_all_groups l] ip_address_all_groups show ?thesis by (simp add: v6_text_of_one_Suc str_nat_128)
qed

text \<open>
  Claim C4: for a valid address \<open>n\<close> and a prefix length \<open>p\<close> that is valid for its
  version, \<open>normalize_ip_or_cidr\<close> accepts \<open>n/p\<close> whether or not host bits are set,
  and returns the address with the bits below the prefix set to zero, a slash and the
  prefix length. The address and the prefix length are printed as the library prints
  them; an IPv6 scope id stays when no host bit was set and goes otherwise.
\<close>

theorem normalize_network_address:
  "ip_address n = Some a \<Longrightarrow> prefix_from_prefix_string (max_prefixlen a) p = Some k \<Longrightarrow>
   normalize_ip_or_cidr (n @ ''/'' @ p) =
     Inr (str_address (zero_host_bits a k) @ ''/'' @ str_nat k)"
  by (rule normalize_network)

theorem normalize_network_address_witness:
  "ip_address ''10.1.2.3'' = Some (V4 167838211)
   \<and> prefix_from_prefix_string (max_prefixlen (V4 167838211)) ''8'' = Some 8
   \<and> normalize_ip_or_cidr ''10.1.2.3/8'' = Inr ''10.0.0.0/8''"
proof -
  have p: "prefix_from_prefix_string (max_prefixlen (V4 167838211)) ''8'' = Some 8"
    using prefix_string_8 by simp
  from normalize_network_address [OF ip_address_10_1_2_3 p] network_text_10_8 ip_address_10_1_2_3 p show ?thesis by simp
qed

text \<open>
  Claim C5: \<open>normalize_ip_or_cidr\<close> is idempotent. Whatever it returns, it returns again
  when applied to that result.
\<close>

theorem normalize_idempotent:
  "normalize_ip_or_cidr x = Inr y \<Longrightarrow> normalize_ip_or_cidr y = Inr y"
  by (rule normalize_idempotent_aux)

theorem normalize_idempotent_witness:
  "normalize_ip_or_cidr ''10.1.2.3/8'' = Inr ''10.0.0.0/8''
   \<and> normalize_ip_or_cidr ''10.0.0.0/8'' = Inr ''10.0.0.0/8''"
proof -
  have p: "prefix_from_prefix_string (max_prefixlen (V4 167838211)) ''8'' = Some 8"
    using prefix_string_8 by simp
  from normalize_network [OF ip_address_10_1_2_3 p] network_text_10_8
  have a: "normalize_ip_or_cidr ''10.1.2.3/8'' = Inr ''10.0.0.0/8''" by simp
  from normalize_idempotent [OF a] a show ?thesis by simp
qed

end
